theory Spec2Isabelle
  imports Main "HOL-Library.Multiset"
begin

section \<open>Strings, tracks and pairs\<close>

text \<open>
  A JavaScript string is a sequence of UTF-16 code units; it is modelled as a list of
  natural numbers, one per code unit. ASCII literals are written through \<open>ascii\<close>.
  A value that may be \<open>undefined\<close> or \<open>null\<close> is an \<open>option\<close>.
\<close>

type_synonym ustring = "nat list"

definition ascii :: "string \<Rightarrow> ustring" where
  "ascii s = map of_char s"

record track =
  title :: "ustring option"
  artist :: "ustring option"

text \<open>
  A pair object. \<open>original\<close>/\<open>sampled\<close> is the shape of the older call site,
  \<open>originalTrack\<close>/\<open>sampledTrack\<close> the shape built by the pairing code. Keys and the
  merge read the four track fields only; the positions are carried along.
\<close>

record pair =
  original :: "track option"
  sampled :: "track option"
  originalTrack :: "track option"
  sampledTrack :: "track option"
  originalPos :: int
  sampledPos :: int

text \<open>\<open>tracks[i]\<close>: reading outside the array gives \<open>undefined\<close>.\<close>

definition trackAt :: "track list \<Rightarrow> int \<Rightarrow> track option" where
  "trackAt tracks i = (if 0 \<le> i \<and> i < int (length tracks) then Some (tracks ! nat i) else None)"

definition mkPair :: "track list \<Rightarrow> int \<Rightarrow> int \<Rightarrow> pair" where
  "mkPair tracks opos spos =
     \<lparr>original = None, sampled = None,
      originalTrack = trackAt tracks (opos - 1), sampledTrack = trackAt tracks (spos - 1),
      originalPos = opos, sampledPos = spos\<rparr>"

section \<open>Default sequential pairing (request handler of /api/create-list)\<close>

datatype request_error = OddTrackCount

text \<open>
  The loop \<open>for (let i = 0; i < tracks.length; i += 2)\<close>, pushing the pair of
  \<open>tracks[i]\<close> and \<open>tracks[i + 1]\<close> with positions \<open>i + 1\<close> and \<open>i + 2\<close>.
\<close>

function defaultPairLoop :: "track list \<Rightarrow> nat \<Rightarrow> pair list \<Rightarrow> pair list" where
  "defaultPairLoop tracks i scrapedPairs =
     (if i < length tracks
      then defaultPairLoop tracks (i + 2)
             (scrapedPairs @ [mkPair tracks (int i + 1) (int i + 2)])
      else scrapedPairs)"
  by pat_completeness auto
termination
  by (relation "measure (\<lambda>(tracks, i, acc). length tracks - i)") auto

definition defaultPairing :: "track list \<Rightarrow> request_error + pair list" where
  "defaultPairing tracks =
     (if length tracks mod 2 \<noteq> 0 then Inl OddTrackCount
      else Inr (defaultPairLoop tracks 0 []))"

section \<open>Pairing plans\<close>

datatype mapping = EVEN_ORIGINAL | ODD_ORIGINAL

record trio =
  trio_original :: int
  sampleA :: int
  sampleB :: int

record range_rule =
  range_start :: int
  range_end :: int
  range_mapping :: mapping

record plan =
  trios :: "trio list"
  ranges :: "range_rule list"

subsection \<open>validatePlan\<close>

text \<open>
  One constructor per message that \<open>validatePlan\<close> pushes, carrying the values the
  message interpolates. Indices in messages are 1-based, as in the source.
\<close>

datatype plan_error =
    NoRanges
  | TrioOutOfRange nat int int
  | TrioNotDistinct nat "int list"
  | TrioMultiple int
  | RangeStartOutOfRange nat int int
  | RangeEndOutOfRange nat int int
  | RangeStartAfterEnd nat int int
  | RangesOverlap nat int int nat int int
  | TrackNotCovered int
  | TrackMultiplyCovered int

record validation =
  ok :: bool
  errors :: "plan_error list"

text \<open>
  The inner loop over a trio's tracks that reports a track already present in the set
  \<open>trioTracks\<close> and adds it. The JavaScript \<open>Set\<close> is a HOL set: only membership is
  ever observed.
\<close>

fun markTrioTracks :: "int list \<Rightarrow> int set \<Rightarrow> plan_error list \<times> int set" where
  "markTrioTracks [] trioTracks = ([], trioTracks)"
| "markTrioTracks (track # rest) trioTracks =
     (let here = (if track \<in> trioTracks then [TrioMultiple track] else []);
          (later, final) = markTrioTracks rest (insert track trioTracks)
      in (here @ later, final))"

text \<open>The \<open>forEach\<close> over the trios, threading the index and the set of trio tracks.\<close>

fun validateTrios :: "int \<Rightarrow> nat \<Rightarrow> trio list \<Rightarrow> int set \<Rightarrow> plan_error list \<times> int set" where
  "validateTrios trackCount index [] trioTracks = ([], trioTracks)"
| "validateTrios trackCount index (t # ts) trioTracks =
     (let tracks = [trio_original t, sampleA t, sampleB t];
          bounds = map (\<lambda>track. TrioOutOfRange (index + 1) track trackCount)
                     (filter (\<lambda>track. track < 1 \<or> track > trackCount) tracks);
          distinctness = (if length (remdups tracks) \<noteq> 3
                          then [TrioNotDistinct (index + 1) tracks] else []);
          (multiple, seen) = markTrioTracks tracks trioTracks;
          (later, final) = validateTrios trackCount (index + 1) ts seen
      in (bounds @ distinctness @ multiple @ later, final))"

definition rangeBoundErrors :: "int \<Rightarrow> nat \<Rightarrow> range_rule \<Rightarrow> plan_error list" where
  "rangeBoundErrors trackCount index r =
     (if range_start r < 1 \<or> range_start r > trackCount
      then [RangeStartOutOfRange (index + 1) (range_start r) trackCount] else []) @
     (if range_end r < 1 \<or> range_end r > trackCount
      then [RangeEndOutOfRange (index + 1) (range_end r) trackCount] else []) @
     (if range_start r > range_end r
      then [RangeStartAfterEnd (index + 1) (range_start r) (range_end r)] else [])"

definition rangesOverlap :: "range_rule \<Rightarrow> range_rule \<Rightarrow> bool" where
  "rangesOverlap rangeA rangeB =
     (let overlap = (range_end rangeA \<ge> range_start rangeB \<and> range_end rangeB \<ge> range_start rangeA);
          touching = (range_end rangeA + 1 = range_start rangeB \<or> range_end rangeB + 1 = range_start rangeA)
      in overlap \<and> \<not> touching)"

definition overlapErrors :: "range_rule list \<Rightarrow> plan_error list" where
  "overlapErrors rs =
     concat (map (\<lambda>i. concat (map (\<lambda>j.
        if rangesOverlap (rs ! i) (rs ! j)
        then [RangesOverlap (i + 1) (range_start (rs ! i)) (range_end (rs ! i))
                            (j + 1) (range_start (rs ! j)) (range_end (rs ! j))]
        else []) [i + 1 ..< length rs])) [0 ..< length rs])"

definition coveringRanges :: "range_rule list \<Rightarrow> int \<Rightarrow> range_rule list" where
  "coveringRanges rs trackNum =
     filter (\<lambda>r. trackNum \<ge> range_start r \<and> trackNum \<le> range_end r) rs"

definition coverageErrors :: "range_rule list \<Rightarrow> int set \<Rightarrow> int \<Rightarrow> plan_error list" where
  "coverageErrors rs trioTracks trackCount =
     concat (map (\<lambda>trackNum.
        if trackNum \<in> trioTracks then []
        else if length (coveringRanges rs trackNum) = 0 then [TrackNotCovered trackNum]
        else if length (coveringRanges rs trackNum) > 1 then [TrackMultiplyCovered trackNum]
        else []) [1 .. trackCount])"

definition validationErrors :: "plan \<Rightarrow> int \<Rightarrow> plan_error list" where
  "validationErrors p trackCount =
     (let (trioErrors, trioTracks) = validateTrios trackCount 0 (trios p) {}
      in (if ranges p = [] then [NoRanges] else []) @
         trioErrors @
         concat (map (\<lambda>(index, r). rangeBoundErrors trackCount index r)
                     (enumerate 0 (ranges p))) @
         overlapErrors (ranges p) @
         coverageErrors (ranges p) trioTracks trackCount)"

definition validatePlan :: "plan \<Rightarrow> int \<Rightarrow> validation" where
  "validatePlan p trackCount =
     \<lparr>ok = (validationErrors p trackCount = []), errors = validationErrors p trackCount\<rparr>"

subsection \<open>buildPairsFromPlan\<close>

datatype build_error = UnmatchedTracks nat int int nat nat

record build_state =
  pairs :: "pair list"
  usedPositions :: "int set"

definition processTrio :: "track list \<Rightarrow> build_state \<Rightarrow> trio \<Rightarrow> build_state" where
  "processTrio tracks st t =
     \<lparr>pairs = pairs st @ [mkPair tracks (trio_original t) (sampleA t),
                            mkPair tracks (trio_original t) (sampleB t)],
      usedPositions = insert (sampleB t) (insert (sampleA t) (usedPositions st))\<rparr>"

definition markOriginal :: "build_state \<Rightarrow> trio \<Rightarrow> build_state" where
  "markOriginal st t = st\<lparr>usedPositions := insert (trio_original t) (usedPositions st)\<rparr>"

definition processTrios :: "track list \<Rightarrow> trio list \<Rightarrow> build_state" where
  "processTrios tracks ts =
     foldl markOriginal
       (foldl (processTrio tracks) \<lparr>pairs = [], usedPositions = {}\<rparr> ts) ts"

definition isOriginalPos :: "mapping \<Rightarrow> int \<Rightarrow> bool" where
  "isOriginalPos m pos =
     (let isEven = (pos mod 2 = 0)
      in if m = EVEN_ORIGINAL then isEven else \<not> isEven)"

definition availablePositions :: "build_state \<Rightarrow> range_rule \<Rightarrow> int list" where
  "availablePositions st r =
     filter (\<lambda>pos. pos \<notin> usedPositions st) [range_start r .. range_end r]"

definition rangeOriginals :: "build_state \<Rightarrow> range_rule \<Rightarrow> int list" where
  "rangeOriginals st r = filter (isOriginalPos (range_mapping r)) (availablePositions st r)"

definition rangeSamples :: "build_state \<Rightarrow> range_rule \<Rightarrow> int list" where
  "rangeSamples st r =
     filter (\<lambda>pos. \<not> isOriginalPos (range_mapping r) pos) (availablePositions st r)"

definition processRange :: "track list \<Rightarrow> build_state \<Rightarrow> nat \<Rightarrow> range_rule \<Rightarrow> build_error + build_state" where
  "processRange tracks st rangeIndex r =
     (let originals = rangeOriginals st r; samples = rangeSamples st r
      in if length originals \<noteq> length samples
         then Inl (UnmatchedTracks (rangeIndex + 1) (range_start r) (range_end r)
                     (length originals) (length samples))
         else Inr \<lparr>pairs = pairs st @ map (\<lambda>(opos, spos). mkPair tracks opos spos)
                                          (zip originals samples),
                   usedPositions = usedPositions st \<union> set originals \<union> set samples\<rparr>)"

fun processRanges :: "track list \<Rightarrow> build_state \<Rightarrow> nat \<Rightarrow> range_rule list \<Rightarrow> build_error + build_state" where
  "processRanges tracks st rangeIndex [] = Inr st"
| "processRanges tracks st rangeIndex (r # rs) =
     (case processRange tracks st rangeIndex r of
        Inl e \<Rightarrow> Inl e
      | Inr st' \<Rightarrow> processRanges tracks st' (rangeIndex + 1) rs)"

definition buildState :: "track list \<Rightarrow> plan \<Rightarrow> build_error + build_state" where
  "buildState tracks p = processRanges tracks (processTrios tracks (trios p)) 0 (ranges p)"

definition leftoverPositions :: "track list \<Rightarrow> build_state \<Rightarrow> int list" where
  "leftoverPositions tracks st =
     filter (\<lambda>pos. pos \<notin> usedPositions st) [1 .. int (length tracks)]"

definition minPos :: "pair \<Rightarrow> int" where
  "minPos p = min (originalPos p) (sampledPos p)"

definition buildPairsFromPlan :: "track list \<Rightarrow> plan \<Rightarrow> build_error + pair list" where
  "buildPairsFromPlan tracks p =
     (case buildState tracks p of
        Inl e \<Rightarrow> Inl e
      | Inr st \<Rightarrow> Inr (sort_key minPos (pairs st)))"

text \<open>The plan of the module's own tests 1 and 8: one trio and two ranges over 10 tracks.\<close>

definition plan8 :: plan where
  "plan8 = \<lparr>trios = [\<lparr>trio_original = 5, sampleA = 6, sampleB = 7\<rparr>],
            ranges = [\<lparr>range_start = 1, range_end = 4, range_mapping = EVEN_ORIGINAL\<rparr>,
                      \<lparr>range_start = 8, range_end = 10, range_mapping = ODD_ORIGINAL\<rparr>]\<rparr>"

text \<open>
  The positions still unused after both passes, which the builder reports in its warning;
  and the number of times a position appears in a pair list, as original or as sample.
\<close>

definition buildLeftover :: "track list \<Rightarrow> plan \<Rightarrow> build_error + int list" where
  "buildLeftover tracks p =
     (case buildState tracks p of
        Inl e \<Rightarrow> Inl e
      | Inr st \<Rightarrow> Inr (leftoverPositions tracks st))"

definition occurrences :: "int \<Rightarrow> pair list \<Rightarrow> nat" where
  "occurrences pos ps =
     count_list (map originalPos ps) pos + count_list (map sampledPos ps) pos"

definition trioTrackList :: "trio \<Rightarrow> int list" where
  "trioTrackList t = [trio_original t, sampleA t, sampleB t]"

text \<open>The two pairs that the builder pushes for one trio.\<close>

definition trioPairs :: "track list \<Rightarrow> trio \<Rightarrow> pair list" where
  "trioPairs tracks t = [mkPair tracks (trio_original t) (sampleA t),
                         mkPair tracks (trio_original t) (sampleB t)]"

text \<open>
  The mock tracks of the module's tests (\<open>Track i\<close> by \<open>Artist i\<close>, i from 1 to 10, the
  number written in decimal), and a plan with one trio and one range over the first five
  of them.
\<close>

fun decimal :: "nat \<Rightarrow> ustring" where
  "decimal n = (if n < 10 then [48 + n] else decimal (n div 10) @ [48 + n mod 10])"

definition mockTrack :: "nat \<Rightarrow> track" where
  "mockTrack i = \<lparr>title = Some (ascii ''Track '' @ decimal i),
                 artist = Some (ascii ''Artist '' @ decimal i)\<rparr>"

definition mockTracks :: "track list" where
  "mockTracks = map mockTrack [1 ..< 11]"

definition trioPlan :: plan where
  "trioPlan = \<lparr>trios = [\<lparr>trio_original = 1, sampleA = 2, sampleB = 3\<rparr>],
               ranges = [\<lparr>range_start = 4, range_end = 5, range_mapping = EVEN_ORIGINAL\<rparr>]\<rparr>"

section \<open>Title and artist normalization, pair keys\<close>

subsection \<open>Character classes of the regular expressions\<close>

text \<open>
  \<open>\s\<close> (and the characters that \<open>trim\<close> strips): the WhiteSpace and LineTerminator code
  points of ECMAScript. \<open>\d\<close> is 0-9, \<open>\w\<close> is A-Z, a-z, 0-9 and the underscore.
\<close>

definition isSpace :: "nat \<Rightarrow> bool" where
  "isSpace c = (c = 9 \<or> c = 10 \<or> c = 11 \<or> c = 12 \<or> c = 13 \<or> c = 32 \<or> c = 160 \<or>
                c = 5760 \<or> (8192 \<le> c \<and> c \<le> 8202) \<or> c = 8232 \<or> c = 8233 \<or>
                c = 8239 \<or> c = 8287 \<or> c = 12288 \<or> c = 65279)"

definition isDigit :: "nat \<Rightarrow> bool" where
  "isDigit c = (48 \<le> c \<and> c \<le> 57)"

definition isLower :: "nat \<Rightarrow> bool" where
  "isLower c = (97 \<le> c \<and> c \<le> 122)"

definition isUpper :: "nat \<Rightarrow> bool" where
  "isUpper c = (65 \<le> c \<and> c \<le> 90)"

definition isWord :: "nat \<Rightarrow> bool" where
  "isWord c = (isUpper c \<or> isLower c \<or> isDigit c \<or> c = 95)"

subsection \<open>String built-ins\<close>

text \<open>
  \<open>toLowerCase\<close> is a built-in of the language; its case mapping (the Unicode tables,
  with the context rule of the final sigma) is no part of the repository. The functions that
  call it take it as a parameter of the same name, and every property below holds for whatever
  function stands there, unless it says \<open>lowercasesBasicLatin\<close>: that a string made of Basic
  Latin characters and the dashes U+2013, U+2014 is lowercased character by character, A-Z to
  a-z (these characters have no other case mapping and no context rule applies to them).
  \<open>basicLatinLowerCase\<close> is the built-in on such strings; the examples are evaluated with it.
\<close>

definition basicLatinLowerCase :: "ustring \<Rightarrow> ustring" where
  "basicLatinLowerCase s = map (\<lambda>c. if isUpper c then c + 32 else c) s"

definition lowercasesBasicLatin :: "(ustring \<Rightarrow> ustring) \<Rightarrow> bool" where
  "lowercasesBasicLatin toLowerCase =
     (\<forall>s. (\<forall>c \<in> set s. c < 128 \<or> c = 8211 \<or> c = 8212) \<longrightarrow>
          toLowerCase s = basicLatinLowerCase s)"

definition trim :: "ustring \<Rightarrow> ustring" where
  "trim s = rev (dropWhile isSpace (rev (dropWhile isSpace s)))"

text \<open>
  \<open>replace(/\s+/g, ' ')\<close>: every maximal run of whitespace becomes one space. The flag
  says whether the previous character belonged to a run that was already replaced.
\<close>

fun replaceSpaceRuns :: "bool \<Rightarrow> ustring \<Rightarrow> ustring" where
  "replaceSpaceRuns inRun [] = []"
| "replaceSpaceRuns inRun (c # cs) =
     (if isSpace c
      then (if inRun then replaceSpaceRuns True cs else 32 # replaceSpaceRuns True cs)
      else c # replaceSpaceRuns False cs)"

text \<open>\<open>replace(/[\<endash>\<emdash>-]/g, ' ')\<close>: en dash U+2013, em dash U+2014 and the hyphen.\<close>

definition replaceDashes :: "ustring \<Rightarrow> ustring" where
  "replaceDashes s = map (\<lambda>c. if c = 8211 \<or> c = 8212 \<or> c = 45 then 32 else c) s"

text \<open>
  \<open>replace(/\([^)]*\)/g, '')\<close> and the same for square brackets. At an opening character
  the expression matches up to the first closing character after it, if there is one; the
  scan goes on after the match. Without a closing character the opening one stays.
\<close>

fun removeGroups :: "nat \<Rightarrow> nat \<Rightarrow> bool \<Rightarrow> ustring \<Rightarrow> ustring" where
  "removeGroups opening closing inside [] = []"
| "removeGroups opening closing False (c # cs) =
     (if c = opening \<and> closing \<in> set cs
      then removeGroups opening closing True cs
      else c # removeGroups opening closing False cs)"
| "removeGroups opening closing True (c # cs) =
     (if c = closing
      then removeGroups opening closing False cs
      else removeGroups opening closing True cs)"

subsection \<open>The suffix patterns\<close>

definition suffixes :: "ustring list" where
  "suffixes = map ascii
     [''remastered'', ''remaster'', ''remix'', ''radio edit'', ''radio version'',
      ''edit'', ''mono'', ''stereo'', ''version'', ''single version'', ''album version'',
      ''extended'', ''extended version'', ''deluxe'', ''deluxe edition'',
      ''explicit'', ''clean'', ''instrumental'', ''acapella'', ''live'']"

text \<open>\<open>suffixes.sort((a, b) => b.length - a.length)\<close>; the sort is stable.\<close>

definition sortedSuffixes :: "ustring list" where
  "sortedSuffixes = sort_key (\<lambda>a. - int (length a)) suffixes"

text \<open>
  A pattern character (a lowercase letter or the space) under the flag \<open>i\<close> matches itself
  and, for a letter, its uppercase form.
\<close>

definition matchesIgnoreCase :: "nat \<Rightarrow> nat \<Rightarrow> bool" where
  "matchesIgnoreCase c p = (c = p \<or> (isLower p \<and> c + 32 = p))"

text \<open>
  What may follow the suffix up to the end of the string, \<open>(?:\s+\d+)?\b\s*$\<close>: only
  whitespace, or whitespace, digits and again only whitespace. (After the letters of the
  suffix or after the digits, \<open>\b\<close> holds exactly when a non-word character or the end
  follows, which the whitespace gives.)
\<close>

definition suffixTail :: "ustring \<Rightarrow> bool" where
  "suffixTail rest =
     (let afterSpace = dropWhile isSpace rest
      in afterSpace = [] \<or>
         (afterSpace \<noteq> rest \<and>
          (let afterDigits = dropWhile isDigit afterSpace
           in afterDigits \<noteq> afterSpace \<and> dropWhile isSpace afterDigits = [])))"

text \<open>Matching the letters of the suffix at the start of a string: what is left after them.\<close>

fun afterLiteral :: "ustring \<Rightarrow> ustring \<Rightarrow> ustring option" where
  "afterLiteral [] s = Some s"
| "afterLiteral (p # ps) [] = None"
| "afterLiteral (p # ps) (c # cs) =
     (if matchesIgnoreCase c p then afterLiteral ps cs else None)"

definition suffixMatchesHere :: "ustring \<Rightarrow> ustring \<Rightarrow> bool" where
  "suffixMatchesHere suffix s =
     (case afterLiteral suffix s of None \<Rightarrow> False | Some rest \<Rightarrow> suffixTail rest)"

text \<open>
  \<open>replace(new RegExp(`\\b${suffix}(?:\\s+\\d+)?\\b\\s*$`, 'i'), '')\<close>: the leftmost
  position with a word boundary before it where the suffix matches; the match reaches the end
  of the string, so the result is what precedes it. The flag says whether the previous
  character is a word character.
\<close>

fun removeSuffixFrom :: "bool \<Rightarrow> ustring \<Rightarrow> ustring \<Rightarrow> ustring" where
  "removeSuffixFrom afterWord suffix [] = []"
| "removeSuffixFrom afterWord suffix (c # cs) =
     (if \<not> afterWord \<and> suffixMatchesHere suffix (c # cs) then []
      else c # removeSuffixFrom (isWord c) suffix cs)"

definition removeSuffix :: "ustring \<Rightarrow> ustring \<Rightarrow> ustring" where
  "removeSuffix s suffix = removeSuffixFrom False suffix s"

subsection \<open>normalizeTitle, normalizeArtist, keyForSong, getPairKey\<close>

definition normalizeTitle :: "(ustring \<Rightarrow> ustring) \<Rightarrow> ustring \<Rightarrow> ustring" where
  "normalizeTitle toLowerCase titleText =
     (if titleText = [] then []
      else let normalized = toLowerCase titleText;
               normalized = replaceDashes normalized;
               normalized = removeGroups 40 41 False normalized;
               normalized = removeGroups 91 93 False normalized;
               normalized = foldl removeSuffix normalized sortedSuffixes;
               normalized = filter (\<lambda>c. isLower c \<or> isDigit c \<or> isSpace c) normalized;
               normalized = replaceSpaceRuns False normalized
           in trim normalized)"

definition normalizeArtist :: "(ustring \<Rightarrow> ustring) \<Rightarrow> ustring \<Rightarrow> ustring" where
  "normalizeArtist toLowerCase artistText =
     (if artistText = [] then []
      else trim (replaceSpaceRuns False (toLowerCase artistText)))"

text \<open>\<open>x || ''\<close> on a string that may be absent.\<close>

definition orEmpty :: "ustring option \<Rightarrow> ustring" where
  "orEmpty x = (case x of None \<Rightarrow> [] | Some s \<Rightarrow> s)"

definition keyForSong :: "(ustring \<Rightarrow> ustring) \<Rightarrow> track option \<Rightarrow> ustring" where
  "keyForSong toLowerCase song =
     (case song of
        None \<Rightarrow> []
      | Some sg \<Rightarrow> normalizeTitle toLowerCase (orEmpty (title sg)) @ ascii ''|'' @
                   normalizeArtist toLowerCase (orEmpty (artist sg)))"

text \<open>\<open>a || b\<close> on two objects that may be absent.\<close>

definition orElse :: "'a option \<Rightarrow> 'a option \<Rightarrow> 'a option" where
  "orElse a b = (case a of None \<Rightarrow> b | Some x \<Rightarrow> Some x)"

definition getPairKey :: "(ustring \<Rightarrow> ustring) \<Rightarrow> pair option \<Rightarrow> ustring" where
  "getPairKey toLowerCase pair =
     (case pair of
        None \<Rightarrow> []
      | Some p \<Rightarrow> ascii ''O:'' @ keyForSong toLowerCase (orElse (original p) (originalTrack p)) @
                  ascii ''||S:'' @ keyForSong toLowerCase (orElse (sampled p) (sampledTrack p)))"

section \<open>Canonical store merge (request handler of /api/create-list)\<close>

text \<open>
  The \<open>Map\<close> from key to pair keeps its entries in insertion order, and
  \<open>Array.from(dedupedMap.values())\<close> reads them in that order: it is a list of entries.
\<close>

definition dedupeStep ::
  "(ustring \<Rightarrow> ustring) \<Rightarrow> (ustring \<times> pair option) list \<Rightarrow> pair option \<Rightarrow>
     (ustring \<times> pair option) list" where
  "dedupeStep toLowerCase dedupedMap pair =
     (let key = getPairKey toLowerCase pair
      in if key \<noteq> [] \<and> key \<notin> fst ` set dedupedMap
         then dedupedMap @ [(key, pair)] else dedupedMap)"

definition mergePairs ::
  "(ustring \<Rightarrow> ustring) \<Rightarrow> pair option list \<Rightarrow> pair option list \<Rightarrow> pair option list" where
  "mergePairs toLowerCase storedPairs scrapedPairs =
     (let allPairs = storedPairs @ scrapedPairs
      in map snd (foldl (dedupeStep toLowerCase) [] allPairs))"

text \<open>
  The merge in the words of the specification: of the concatenated list, keep the first
  pair of every key and drop the pairs whose key is empty.
\<close>

fun keepFirstOfEachKey :: "(ustring \<Rightarrow> ustring) \<Rightarrow> pair option list \<Rightarrow> pair option list" where
  "keepFirstOfEachKey toLowerCase [] = []"
| "keepFirstOfEachKey toLowerCase (p # ps) =
     (if getPairKey toLowerCase p = [] then keepFirstOfEachKey toLowerCase ps
      else p # keepFirstOfEachKey toLowerCase
                 (filter (\<lambda>q. getPairKey toLowerCase q \<noteq> getPairKey toLowerCase p) ps))"

definition specMerge ::
  "(ustring \<Rightarrow> ustring) \<Rightarrow> pair option list \<Rightarrow> pair option list \<Rightarrow> pair option list" where
  "specMerge toLowerCase storedPairs newPairs = keepFirstOfEachKey toLowerCase (storedPairs @ newPairs)"

text \<open>
  A title has a trailing annotation when one of the suffix patterns matches it; and the
  shape of a string in which whitespace occurs only as single spaces (the flag says whether a
  space stands just before).
\<close>

definition hasTrailingAnnotation :: "ustring \<Rightarrow> bool" where
  "hasTrailingAnnotation s = (\<exists>suffix \<in> set sortedSuffixes. removeSuffix s suffix \<noteq> s)"

fun singleSpaced :: "bool \<Rightarrow> ustring \<Rightarrow> bool" where
  "singleSpaced afterSpace [] = True"
| "singleSpaced afterSpace (c # cs) =
     (if isSpace c then c = 32 \<and> \<not> afterSpace \<and> singleSpaced True cs
      else singleSpaced False cs)"

text \<open>The last three steps of \<open>normalizeTitle\<close>: filter, whitespace runs, trim.\<close>

definition titleTail :: "ustring \<Rightarrow> ustring" where
  "titleTail s = trim (replaceSpaceRuns False
                   (filter (\<lambda>c. isLower c \<or> isDigit c \<or> isSpace c) s))"

section \<open>normalizePlan\<close>

text \<open>
  The raw plan comes from the request body. \<open>normalizePlan\<close> reads a property of the plan
  and of every entry of \<open>trios\<close> and \<open>ranges\<close>, which throws a \<open>TypeError\<close> when the
  plan or the entry is \<open>null\<close> or \<open>undefined\<close> (\<open>None\<close>); \<open>trios\<close> or \<open>ranges\<close> may
  be no array at all (\<open>None\<close>). Every field of an entry is used through \<open>String(...)\<close>
  only: a field of the model is the outcome of that conversion, the string (a missing field
  gives \<open>undefined\<close>) or the \<open>TypeError\<close> that the conversion throws for an object it
  cannot convert (one with an own property \<open>toString\<close> that is no function).
\<close>

datatype js_error = TypeError

type_synonym field = "js_error + ustring"


record raw_range =
  raw_start :: field
  raw_end :: field
  raw_mapping :: field


text \<open>
  \<open>parseInt\<close> without a radix: leading whitespace, an optional sign, an optional prefix
  \<open>0x\<close> or \<open>0X\<close> (then base 16), and the longest run of digits of the base; \<open>NaN\<close>
  (\<open>None\<close>) when that run is empty. The value is kept as an exact integer, where the engine
  rounds it to a double beyond 2^53: the rounding is monotone and leaves the integers up to
  2^53 as they are, so the clamped positions and the order of the bounds are those of the
  engine for every track count up to 2^53, which the properties below assume.
\<close>

definition digitValue :: "nat \<Rightarrow> nat \<Rightarrow> nat option" where
  "digitValue radix c =
     (let v = (if isDigit c then Some (c - 48)
               else if isLower c then Some (c - 87)
               else if isUpper c then Some (c - 55)
               else None)
      in case v of None \<Rightarrow> None | Some d \<Rightarrow> if d < radix then Some d else None)"

definition digitsValue :: "nat \<Rightarrow> ustring \<Rightarrow> nat" where
  "digitsValue radix ds =
     foldl (\<lambda>acc c. acc * radix + (case digitValue radix c of None \<Rightarrow> 0 | Some d \<Rightarrow> d)) 0 ds"

definition parseInt :: "ustring \<Rightarrow> int option" where
  "parseInt inputString =
     (let s = dropWhile isSpace inputString;
          sign = (case s of [] \<Rightarrow> 1 | c # cs \<Rightarrow> if c = 45 then - 1 else (1::int));
          s = (case s of [] \<Rightarrow> [] | c # cs \<Rightarrow> if c = 45 \<or> c = 43 then cs else s);
          hex = (case s of c # d # cs \<Rightarrow> c = 48 \<and> (d = 120 \<or> d = 88) | _ \<Rightarrow> False);
          radix = (if hex then 16 else 10);
          s = (if hex then drop 2 s else s);
          z = takeWhile (\<lambda>c. digitValue radix c \<noteq> None) s
      in if z = [] then None else Some (sign * int (digitsValue radix z)))"

text \<open>
  \<open>parseInt(String(field).trim())\<close> and \<open>String(range.mapping).trim()\<close> with the test
  of the mapping: the error of the conversion, or the number (\<open>None\<close> for \<open>NaN\<close>) and the
  mapping (\<open>None\<close> for a string that is neither name).
\<close>

definition parseField :: "field \<Rightarrow> js_error + int option" where
  "parseField f = (case f of Inl err \<Rightarrow> Inl err | Inr s \<Rightarrow> Inr (parseInt (trim s)))"

definition parseMapping :: "field \<Rightarrow> js_error + mapping option" where
  "parseMapping f =
     (case f of
        Inl err \<Rightarrow> Inl err
      | Inr s \<Rightarrow>
          (let m = trim s
           in if m = ascii ''EVEN_ORIGINAL'' then Inr (Some EVEN_ORIGINAL)
              else if m = ascii ''ODD_ORIGINAL'' then Inr (Some ODD_ORIGINAL)
              else Inr None))"

text \<open>\<open>Math.max(1, Math.min(trackCount, value))\<close>.\<close>

definition clampPosition :: "int \<Rightarrow> int \<Rightarrow> int" where
  "clampPosition trackCount v = max 1 (min trackCount v)"


text \<open>
  The callback for a range: the two bounds are converted first; a bound that is \<open>NaN\<close>
  ends the callback before the mapping is converted.
\<close>

definition normalizeRange :: "int \<Rightarrow> raw_range \<Rightarrow> js_error + range_rule option" where
  "normalizeRange trackCount r =
     (case parseField (raw_start r) of
        Inl err \<Rightarrow> Inl err
      | Inr s \<Rightarrow>
     (case parseField (raw_end r) of
        Inl err \<Rightarrow> Inl err
      | Inr e \<Rightarrow>
     (case (s, e) of
        (Some s, Some e) \<Rightarrow>
          (let (s, e) = (if s > e then (e, s) else (s, e));
               s = clampPosition trackCount s;
               e = clampPosition trackCount e
           in case parseMapping (raw_mapping r) of
                Inl err \<Rightarrow> Inl err
              | Inr None \<Rightarrow> Inr None
              | Inr (Some m) \<Rightarrow> Inr (Some \<lparr>range_start = s, range_end = e, range_mapping = m\<rparr>))
      | _ \<Rightarrow> Inr None)))"







definition str :: "string \<Rightarrow> field" where
  "str s = Inr (ascii s)"






definition afterBrackets :: "ustring \<Rightarrow> ustring" where
  "afterBrackets u = removeGroups 91 93 False (removeGroups 40 41 False (replaceDashes u))"

definition normalizeLowered :: "ustring \<Rightarrow> ustring" where
  "normalizeLowered u = titleTail (foldl removeSuffix (afterBrackets u) sortedSuffixes)"





section \<open>Properties\<close>

lemma trackAt_nat: "n < length tracks \<Longrightarrow> trackAt tracks (int n) = Some (tracks ! n)"
  unfolding trackAt_def by simp

lemma defaultPairLoop_eq:
  "defaultPairLoop tracks i acc =
     acc @ map (\<lambda>k. mkPair tracks (int (i + 2 * k) + 1) (int (i + 2 * k) + 2))
             [0 ..< (length tracks + 1 - i) div 2]"
proof (induction tracks i acc rule: defaultPairLoop.induct)
  case (1 tracks i acc)
  show ?case
  proof (cases "i < length tracks")
    case True
    then have n: "(length tracks + 1 - i) div 2 = Suc ((length tracks + 1 - (i + 2)) div 2)"
      by arith
    have "defaultPairLoop tracks i acc =
          defaultPairLoop tracks (i + 2) (acc @ [mkPair tracks (int i + 1) (int i + 2)])"
      using True by (subst defaultPairLoop.simps) simp
    also have "\<dots> = (acc @ [mkPair tracks (int i + 1) (int i + 2)]) @
          map (\<lambda>k. mkPair tracks (int (i + 2 + 2 * k) + 1) (int (i + 2 + 2 * k) + 2))
             [0 ..< (length tracks + 1 - (i + 2)) div 2]"
      using "1.IH" [OF True] .
    also have "\<dots> = acc @ map (\<lambda>k. mkPair tracks (int (i + 2 * k) + 1) (int (i + 2 * k) + 2))
             [0 ..< Suc ((length tracks + 1 - (i + 2)) div 2)]"
    proof -
      have "[0 ..< Suc m] = 0 # map Suc [0 ..< m]" for m
        by (simp add: upt_conv_Cons map_Suc_upt del: upt_Suc)
      then show ?thesis
        by (simp add: o_def add.commute add.left_commute del: upt_Suc)
    qed
    finally show ?thesis using n by simp
  next
    case False
    then have "(length tracks + 1 - i) div 2 = 0" by arith
    moreover have "defaultPairLoop tracks i acc = acc"
      using False by (subst defaultPairLoop.simps) simp
    ultimately show ?thesis by simp
  qed
qed

text \<open>
  C9. Without a pairing plan, an odd number of tracks is refused with the error
  \<open>odd\<close>; an even number N gives exactly N/2 pairs, the k-th (from 0) pairing position
  2k+1 as original with position 2k+2 as sampled, carrying the tracks at these positions.
\<close>

theorem default_pairing_sequential:
  "(odd (length tracks) \<longrightarrow> defaultPairing tracks = Inl OddTrackCount) \<and>
   (even (length tracks) \<longrightarrow>
     (\<exists>ps. defaultPairing tracks = Inr ps \<and> length ps = length tracks div 2 \<and>
       (\<forall>k < length tracks div 2.
          ps ! k = \<lparr>original = None, sampled = None,
                    originalTrack = Some (tracks ! (2 * k)),
                    sampledTrack = Some (tracks ! (2 * k + 1)),
                    originalPos = 2 * int k + 1, sampledPos = 2 * int k + 2\<rparr>)))"
proof (intro conjI impI)
  assume "odd (length tracks)"
  then show "defaultPairing tracks = Inl OddTrackCount"
    by (simp add: defaultPairing_def odd_iff_mod_2_eq_one)
next
  assume ev: "even (length tracks)"
  let ?ps = "map (\<lambda>k. mkPair tracks (int (2 * k) + 1) (int (2 * k) + 2))
               [0 ..< length tracks div 2]"
  from ev have half: "(length tracks + 1 - 0) div 2 = length tracks div 2"
    by presburger
  have "defaultPairLoop tracks 0 [] = ?ps"
    unfolding defaultPairLoop_eq [of tracks 0 "[]"] half by simp
  with ev have run: "defaultPairing tracks = Inr ?ps"
    unfolding defaultPairing_def by simp
  have nth: "?ps ! k = \<lparr>original = None, sampled = None,
                    originalTrack = Some (tracks ! (2 * k)),
                    sampledTrack = Some (tracks ! (2 * k + 1)),
                    originalPos = 2 * int k + 1, sampledPos = 2 * int k + 2\<rparr>"
    if "k < length tracks div 2" for k
  proof -
    from that ev have lt: "2 * k + 1 < length tracks" by presburger
    have ia: "int (2 * k) + 1 - 1 = int (2 * k)" and ib: "int (2 * k) + 2 - 1 = int (2 * k + 1)"
      by simp_all
    have a: "trackAt tracks (int (2 * k) + 1 - 1) = Some (tracks ! (2 * k))"
      unfolding ia using lt by (intro trackAt_nat) simp
    have b: "trackAt tracks (int (2 * k) + 2 - 1) = Some (tracks ! (2 * k + 1))"
      unfolding ib using lt by (intro trackAt_nat)
    have "?ps ! k = mkPair tracks (int (2 * k) + 1) (int (2 * k) + 2)"
      using that by simp
    then show ?thesis
      unfolding mkPair_def a b by simp
  qed
  show "\<exists>ps. defaultPairing tracks = Inr ps \<and> length ps = length tracks div 2 \<and>
       (\<forall>k < length tracks div 2.
          ps ! k = \<lparr>original = None, sampled = None,
                    originalTrack = Some (tracks ! (2 * k)),
                    sampledTrack = Some (tracks ! (2 * k + 1)),
                    originalPos = 2 * int k + 1, sampledPos = 2 * int k + 2\<rparr>)"
    using run nth by (intro exI [of _ ?ps]) simp
qed

theorem default_pairing_sequential_witness:
  "even (length [\<lparr>title = Some (ascii ''A''), artist = Some (ascii ''x'')\<rparr>,
                 \<lparr>title = Some (ascii ''B''), artist = Some (ascii ''y'')\<rparr>]) \<and>
   defaultPairing [\<lparr>title = Some (ascii ''A''), artist = Some (ascii ''x'')\<rparr>,
                   \<lparr>title = Some (ascii ''B''), artist = Some (ascii ''y'')\<rparr>] =
     Inr [\<lparr>original = None, sampled = None,
           originalTrack = Some \<lparr>title = Some (ascii ''A''), artist = Some (ascii ''x'')\<rparr>,
           sampledTrack = Some \<lparr>title = Some (ascii ''B''), artist = Some (ascii ''y'')\<rparr>,
           originalPos = 1, sampledPos = 2\<rparr>] \<and>
   odd (length [\<lparr>title = Some (ascii ''A''), artist = Some (ascii ''x'')\<rparr>]) \<and>
   defaultPairing [\<lparr>title = Some (ascii ''A''), artist = Some (ascii ''x'')\<rparr>] =
     Inl OddTrackCount"
  using default_pairing_sequential
          [of "[\<lparr>title = Some (ascii ''A''), artist = Some (ascii ''x'')\<rparr>,
                \<lparr>title = Some (ascii ''B''), artist = Some (ascii ''y'')\<rparr>]"]
        default_pairing_sequential
          [of "[\<lparr>title = Some (ascii ''A''), artist = Some (ascii ''x'')\<rparr>]"]
  by (auto simp: length_Suc_conv)

lemmas validate_defs = validatePlan_def validationErrors_def rangeBoundErrors_def overlapErrors_def
  coverageErrors_def coveringRanges_def rangesOverlap_def enumerate_eq_zip

lemmas build_defs = buildPairsFromPlan_def buildState_def processTrios_def processTrio_def
  markOriginal_def processRange_def rangeOriginals_def rangeSamples_def availablePositions_def
  isOriginalPos_def

lemma upto_1_4: "[1 .. 4 :: int] = [1, 2, 3, 4]" by code_simp
lemma upto_8_10: "[8 .. 10 :: int] = [8, 9, 10]" by code_simp
lemma upto_1_10: "[1 .. 10 :: int] = [1, 2, 3, 4, 5, 6, 7, 8, 9, 10]" by code_simp

text \<open>
  C2. On any track list, the plan with trio (5, 6, 7) and ranges [1,4] EVEN_ORIGINAL and
  [8,10] ODD_ORIGINAL passes \<open>validatePlan\<close> for 10 tracks. The build pushes the trio
  pairs (5,6) and (5,7), then the pairs (2,1) and (4,3) of range [1,4], and throws at
  range 2 = [8,10], which has 1 original and 2 samples: the result of the whole build is the
  error, no pair list.
\<close>

theorem example_plan_validates_then_build_fails:
  "validatePlan plan8 10 = \<lparr>ok = True, errors = []\<rparr> \<and>
   pairs (processTrios tracks (trios plan8)) = [mkPair tracks 5 6, mkPair tracks 5 7] \<and>
   (\<exists>st. processRange tracks (processTrios tracks (trios plan8)) 0 (ranges plan8 ! 0) = Inr st \<and>
         pairs st = [mkPair tracks 5 6, mkPair tracks 5 7, mkPair tracks 2 1, mkPair tracks 4 3] \<and>
         processRange tracks st 1 (ranges plan8 ! 1) = Inl (UnmatchedTracks 2 8 10 1 2)) \<and>
   buildPairsFromPlan tracks plan8 = Inl (UnmatchedTracks 2 8 10 1 2)"
proof -
  have v: "validatePlan plan8 10 = \<lparr>ok = True, errors = []\<rparr>"
    by (simp add: plan8_def validate_defs upto_1_10 upt_conv_Cons)
  have t: "processTrios tracks (trios plan8) =
        \<lparr>pairs = [mkPair tracks 5 6, mkPair tracks 5 7], usedPositions = {5, 7, 6}\<rparr>"
    by (simp add: plan8_def processTrios_def processTrio_def markOriginal_def)
  let ?st = "\<lparr>pairs = [mkPair tracks 5 6, mkPair tracks 5 7, mkPair tracks 2 1, mkPair tracks 4 3],
              usedPositions = {5, 7, 6} \<union> set [2, 4] \<union> set [1, 3]\<rparr>"
  have r1: "processRange tracks (processTrios tracks (trios plan8)) 0 (ranges plan8 ! 0) = Inr ?st"
    unfolding t by (simp add: plan8_def build_defs upto_1_4 insert_commute)
  have r2: "processRange tracks ?st 1 (ranges plan8 ! 1) = Inl (UnmatchedTracks 2 8 10 1 2)"
    by (simp add: plan8_def build_defs upto_8_10)
  have b: "buildPairsFromPlan tracks plan8 = Inl (UnmatchedTracks 2 8 10 1 2)"
    using r1 r2 by (simp add: buildPairsFromPlan_def buildState_def plan8_def)
  show ?thesis using v t r1 r2 b by simp
qed

lemma markTrioTracks_fst:
  "fst (markTrioTracks (track # rest) seen) =
     (if track \<in> seen then [TrioMultiple track] else []) @
     fst (markTrioTracks rest (insert track seen))"
  by (simp add: case_prod_beta)

lemma markTrioTracks_snd: "snd (markTrioTracks tracks seen) = seen \<union> set tracks"
  by (induction tracks arbitrary: seen) (simp_all add: case_prod_beta)

lemma validateTrios_fst:
  "fst (validateTrios trackCount index (t # ts) seen) =
     map (\<lambda>track. TrioOutOfRange (index + 1) track trackCount)
         (filter (\<lambda>track. track < 1 \<or> track > trackCount) [trio_original t, sampleA t, sampleB t]) @
     (if length (remdups [trio_original t, sampleA t, sampleB t]) \<noteq> 3
      then [TrioNotDistinct (index + 1) [trio_original t, sampleA t, sampleB t]] else []) @
     fst (markTrioTracks [trio_original t, sampleA t, sampleB t] seen) @
     fst (validateTrios trackCount (index + 1) ts
            (seen \<union> {trio_original t, sampleA t, sampleB t}))"
proof -
  have "snd (markTrioTracks [trio_original t, sampleA t, sampleB t] seen) =
        seen \<union> {trio_original t, sampleA t, sampleB t}"
    unfolding markTrioTracks_snd by simp
  then show ?thesis
    by (simp add: case_prod_beta Let_def del: markTrioTracks.simps remdups.simps)
qed

lemma validateTrios_snd:
  "snd (validateTrios trackCount index ts seen) =
     seen \<union> (\<Union>t \<in> set ts. {trio_original t, sampleA t, sampleB t})"
proof (induction ts arbitrary: index seen)
  case Nil
  then show ?case by simp
next
  case (Cons t ts)
  have "snd (validateTrios trackCount index (t # ts) seen) =
        snd (validateTrios trackCount (index + 1) ts
               (snd (markTrioTracks [trio_original t, sampleA t, sampleB t] seen)))"
    by (simp add: case_prod_beta Let_def del: markTrioTracks.simps remdups.simps)
  then show ?case
    unfolding markTrioTracks_snd Cons.IH by auto
qed

lemma markTrioTracks_errors:
  "e \<in> set (fst (markTrioTracks tracks seen)) \<Longrightarrow> \<exists>track. e = TrioMultiple track"
proof (induction tracks arbitrary: seen)
  case Nil
  then show ?case by simp
next
  case (Cons a tracks)
  then show ?case unfolding markTrioTracks_fst by (auto split: if_splits)
qed

lemma validateTrios_errors:
  "e \<in> set (fst (validateTrios trackCount index ts seen)) \<Longrightarrow>
     (\<exists>i t n. e = TrioOutOfRange i t n) \<or> (\<exists>i l. e = TrioNotDistinct i l) \<or>
     (\<exists>t. e = TrioMultiple t)"
proof (induction ts arbitrary: index seen)
  case Nil
  then show ?case by simp
next
  case (Cons t ts)
  have m: "\<exists>x. e = f x" if "e \<in> set (map f (filter P l))"
    for f :: "int \<Rightarrow> plan_error" and P l
    using that by auto
  from Cons.prems have
    "e \<in> set (map (\<lambda>track. TrioOutOfRange (index + 1) track trackCount)
         (filter (\<lambda>track. track < 1 \<or> track > trackCount) [trio_original t, sampleA t, sampleB t])) \<or>
     e \<in> set (if length (remdups [trio_original t, sampleA t, sampleB t]) \<noteq> 3
      then [TrioNotDistinct (index + 1) [trio_original t, sampleA t, sampleB t]] else []) \<or>
     e \<in> set (fst (markTrioTracks [trio_original t, sampleA t, sampleB t] seen)) \<or>
     e \<in> set (fst (validateTrios trackCount (index + 1) ts
            (seen \<union> {trio_original t, sampleA t, sampleB t})))"
    unfolding validateTrios_fst by (simp only: set_append Un_iff)
  then consider
      "\<exists>x. e = TrioOutOfRange (index + 1) x trackCount"
    | "e \<in> set (if length (remdups [trio_original t, sampleA t, sampleB t]) \<noteq> 3
      then [TrioNotDistinct (index + 1) [trio_original t, sampleA t, sampleB t]] else [])"
    | "e \<in> set (fst (markTrioTracks [trio_original t, sampleA t, sampleB t] seen))"
    | "e \<in> set (fst (validateTrios trackCount (index + 1) ts
            (seen \<union> {trio_original t, sampleA t, sampleB t})))"
    using m by blast
  then show ?case
  proof cases
    case 1
    then show ?thesis by blast
  next
    case 2
    then have "e = TrioNotDistinct (index + 1) [trio_original t, sampleA t, sampleB t]"
      by (simp del: remdups.simps split: if_splits)
    then show ?thesis by blast
  next
    case 3
    then show ?thesis using markTrioTracks_errors by blast
  next
    case 4
    then show ?thesis using Cons.IH by blast
  qed
qed

lemma overlapErrors_iff:
  "e \<in> set (overlapErrors rs) \<longleftrightarrow>
     (\<exists>i j. i < j \<and> j < length rs \<and> rangesOverlap (rs ! i) (rs ! j) \<and>
        e = RangesOverlap (i + 1) (range_start (rs ! i)) (range_end (rs ! i))
                          (j + 1) (range_start (rs ! j)) (range_end (rs ! j)))"
  unfolding overlapErrors_def by (auto split: if_splits)

lemma overlap_error_in_errors:
  "RangesOverlap a b c d e f \<in> set (errors (validatePlan p trackCount)) \<longleftrightarrow>
   RangesOverlap a b c d e f \<in> set (overlapErrors (ranges p))"
proof -
  obtain te tt where t: "validateTrios trackCount 0 (trios p) {} = (te, tt)"
    by (cases "validateTrios trackCount 0 (trios p) {}")
  have "RangesOverlap a b c d e f \<notin> set te"
    using validateTrios_errors [of "RangesOverlap a b c d e f" trackCount 0 "trios p" "{}"] t
    by auto
  then show ?thesis
    unfolding validatePlan_def validationErrors_def t rangeBoundErrors_def coverageErrors_def
    by (auto split: if_splits)
qed

text \<open>
  C7. For two ranges at indices i < j of a plan, \<open>validatePlan\<close> reports the overlap
  error for them exactly when end(i) \<ge> start(j) and end(j) \<ge> start(i) and neither
  end(i) + 1 = start(j) nor end(j) + 1 = start(i). Ranges [1,5] and [5,10] give the overlap
  error and fail validation (whatever the trios, mappings and track count); ranges [1,5] and
  [6,10] without trios validate for 10 tracks.
\<close>

theorem validatePlan_overlap:
  "(\<forall>i j. i < j \<and> j < length (ranges p) \<longrightarrow>
      (RangesOverlap (i + 1) (range_start (ranges p ! i)) (range_end (ranges p ! i))
                     (j + 1) (range_start (ranges p ! j)) (range_end (ranges p ! j))
         \<in> set (errors (validatePlan p trackCount))) =
      (range_end (ranges p ! i) \<ge> range_start (ranges p ! j) \<and>
       range_end (ranges p ! j) \<ge> range_start (ranges p ! i) \<and>
       \<not> (range_end (ranges p ! i) + 1 = range_start (ranges p ! j) \<or>
          range_end (ranges p ! j) + 1 = range_start (ranges p ! i)))) \<and>
   RangesOverlap 1 1 5 2 5 10 \<in> set (errors (validatePlan
       \<lparr>trios = ts, ranges = [\<lparr>range_start = 1, range_end = 5, range_mapping = m1\<rparr>,
                              \<lparr>range_start = 5, range_end = 10, range_mapping = m2\<rparr>]\<rparr> n)) \<and>
   \<not> ok (validatePlan
       \<lparr>trios = ts, ranges = [\<lparr>range_start = 1, range_end = 5, range_mapping = m1\<rparr>,
                              \<lparr>range_start = 5, range_end = 10, range_mapping = m2\<rparr>]\<rparr> n) \<and>
   validatePlan
       \<lparr>trios = [], ranges = [\<lparr>range_start = 1, range_end = 5, range_mapping = m1\<rparr>,
                              \<lparr>range_start = 6, range_end = 10, range_mapping = m2\<rparr>]\<rparr> 10 =
     \<lparr>ok = True, errors = []\<rparr>"
proof (intro conjI allI impI)
  fix i j
  assume ij: "i < j \<and> j < length (ranges p)"
  let ?e = "RangesOverlap (i + 1) (range_start (ranges p ! i)) (range_end (ranges p ! i))
                     (j + 1) (range_start (ranges p ! j)) (range_end (ranges p ! j))"
  have "?e \<in> set (errors (validatePlan p trackCount)) \<longleftrightarrow> rangesOverlap (ranges p ! i) (ranges p ! j)"
    unfolding overlap_error_in_errors overlapErrors_iff using ij by auto
  then show "(?e \<in> set (errors (validatePlan p trackCount))) =
      (range_end (ranges p ! i) \<ge> range_start (ranges p ! j) \<and>
       range_end (ranges p ! j) \<ge> range_start (ranges p ! i) \<and>
       \<not> (range_end (ranges p ! i) + 1 = range_start (ranges p ! j) \<or>
          range_end (ranges p ! j) + 1 = range_start (ranges p ! i)))"
    by (simp add: rangesOverlap_def)
next
  let ?p = "\<lparr>trios = ts, ranges = [\<lparr>range_start = 1, range_end = 5, range_mapping = m1\<rparr>,
                              \<lparr>range_start = 5, range_end = 10, range_mapping = m2\<rparr>]\<rparr>"
  have "RangesOverlap 1 1 5 2 5 10 \<in> set (overlapErrors (ranges ?p))"
    by (simp add: overlapErrors_def rangesOverlap_def upt_conv_Cons)
  then show in_err: "RangesOverlap 1 1 5 2 5 10 \<in> set (errors (validatePlan ?p n))"
    unfolding overlap_error_in_errors .
  then show "\<not> ok (validatePlan ?p n)"
    unfolding validatePlan_def by auto
next
  show "validatePlan
       \<lparr>trios = [], ranges = [\<lparr>range_start = 1, range_end = 5, range_mapping = m1\<rparr>,
                              \<lparr>range_start = 6, range_end = 10, range_mapping = m2\<rparr>]\<rparr> 10 =
     \<lparr>ok = True, errors = []\<rparr>"
    by (simp add: validate_defs upto_1_10 upt_conv_Cons)
qed

theorem validatePlan_overlap_witness:
  "(0::nat) < 1 \<and> (1::nat) < length (ranges
       \<lparr>trios = [], ranges = [\<lparr>range_start = 1, range_end = 5, range_mapping = EVEN_ORIGINAL\<rparr>,
                              \<lparr>range_start = 5, range_end = 10, range_mapping = ODD_ORIGINAL\<rparr>]\<rparr>) \<and>
   RangesOverlap 1 1 5 2 5 10 \<in> set (errors (validatePlan
       \<lparr>trios = [], ranges = [\<lparr>range_start = 1, range_end = 5, range_mapping = EVEN_ORIGINAL\<rparr>,
                              \<lparr>range_start = 5, range_end = 10, range_mapping = ODD_ORIGINAL\<rparr>]\<rparr> 10))"
  using validatePlan_overlap [of
       "\<lparr>trios = [], ranges = [\<lparr>range_start = 1, range_end = 5, range_mapping = EVEN_ORIGINAL\<rparr>,
                              \<lparr>range_start = 5, range_end = 10, range_mapping = ODD_ORIGINAL\<rparr>]\<rparr>" 10]
  by simp

lemma markTrioTracks_Nil:
  "fst (markTrioTracks l seen) = [] \<longleftrightarrow> distinct l \<and> set l \<inter> seen = {}"
proof (induction l arbitrary: seen)
  case Nil
  then show ?case by simp
next
  case (Cons a l)
  show ?case unfolding markTrioTracks_fst using Cons.IH [of "insert a seen"] by auto
qed

lemma validateTrios_Nil:
  assumes "fst (validateTrios n i ts seen) = []"
  shows "(\<forall>t \<in> set ts. \<forall>x \<in> set (trioTrackList t). 1 \<le> x \<and> x \<le> n) \<and>
         distinct (concat (map trioTrackList ts)) \<and>
         seen \<inter> set (concat (map trioTrackList ts)) = {}"
  using assms
proof (induction ts arbitrary: i seen)
  case Nil
  then show ?case by simp
next
  case (Cons t ts)
  let ?l = "[trio_original t, sampleA t, sampleB t]"
  from Cons.prems have
    b: "filter (\<lambda>track. track < 1 \<or> track > n) ?l = []" and
    m: "fst (markTrioTracks ?l seen) = []" and
    r: "fst (validateTrios n (i + 1) ts (seen \<union> {trio_original t, sampleA t, sampleB t})) = []"
    unfolding validateTrios_fst by (simp_all del: markTrioTracks.simps remdups.simps filter.simps)
  from b have b': "\<forall>x \<in> set ?l. 1 \<le> x \<and> x \<le> n"
    unfolding filter_empty_conv by auto
  from m have m': "distinct ?l \<and> set ?l \<inter> seen = {}"
    unfolding markTrioTracks_Nil .
  note ih = Cons.IH [OF r]
  have l: "trioTrackList t = ?l" by (simp add: trioTrackList_def)
  from b' have b'': "\<forall>x \<in> set (trioTrackList t). 1 \<le> x \<and> x \<le> n"
    unfolding l .
  from m' have m'': "distinct (trioTrackList t)" "set (trioTrackList t) \<inter> seen = {}"
    unfolding l by blast+
  from ih have ih3: "(seen \<union> set (trioTrackList t)) \<inter> set (concat (map trioTrackList ts)) = {}"
    unfolding l by simp
  from b'' ih have 1: "\<forall>t \<in> set (t # ts). \<forall>x \<in> set (trioTrackList t). 1 \<le> x \<and> x \<le> n"
    by simp
  have "set (trioTrackList t) \<inter> set (concat (map trioTrackList ts)) = {}"
    using ih3 by blast
  with m'' ih have 2: "distinct (concat (map trioTrackList (t # ts)))"
    unfolding list.map concat.simps distinct_append by blast
  from m'' ih3 have 3: "seen \<inter> set (concat (map trioTrackList (t # ts))) = {}"
    unfolding list.map concat.simps set_append by blast
  from 1 2 3 show ?case by blast
qed

lemma validationErrors_Nil:
  assumes "validationErrors p n = []"
  shows "fst (validateTrios n 0 (trios p) {}) = []"
    and "\<forall>r \<in> set (ranges p). 1 \<le> range_start r \<and> range_start r \<le> n \<and>
            1 \<le> range_end r \<and> range_end r \<le> n"
    and "coverageErrors (ranges p) (\<Union>t \<in> set (trios p). set (trioTrackList t)) n = []"
proof -
  have s: "snd (validateTrios n 0 (trios p) {}) = (\<Union>t \<in> set (trios p). set (trioTrackList t))"
    unfolding validateTrios_snd trioTrackList_def by simp
  from assms show "fst (validateTrios n 0 (trios p) {}) = []"
    unfolding validationErrors_def by (simp add: case_prod_beta)
  from assms show "coverageErrors (ranges p) (\<Union>t \<in> set (trios p). set (trioTrackList t)) n = []"
    unfolding validationErrors_def s [symmetric] by (simp add: case_prod_beta)
  from assms have c: "\<forall>x \<in> set (enumerate 0 (ranges p)). rangeBoundErrors n (fst x) (snd x) = []"
    unfolding validationErrors_def by (simp add: case_prod_beta)
  show "\<forall>r \<in> set (ranges p). 1 \<le> range_start r \<and> range_start r \<le> n \<and>
            1 \<le> range_end r \<and> range_end r \<le> n"
  proof
    fix r assume "r \<in> set (ranges p)"
    then obtain k where "k < length (ranges p)" "ranges p ! k = r"
      by (auto simp: in_set_conv_nth)
    then have "(k, r) \<in> set (enumerate 0 (ranges p))"
      by (simp add: in_set_enumerate_eq)
    with c have "rangeBoundErrors n k r = []" by fastforce
    then show "1 \<le> range_start r \<and> range_start r \<le> n \<and> 1 \<le> range_end r \<and> range_end r \<le> n"
      unfolding rangeBoundErrors_def by (auto split: if_splits)
  qed
qed

lemma coverageErrors_Nil:
  assumes "coverageErrors rs T n = []" and "1 \<le> pos" and "pos \<le> n" and "pos \<notin> T"
  shows "\<exists>r \<in> set rs. range_start r \<le> pos \<and> pos \<le> range_end r"
proof -
  define f where "f = (\<lambda>trackNum. if trackNum \<in> T then []
        else if length (coveringRanges rs trackNum) = 0 then [TrackNotCovered trackNum]
        else if length (coveringRanges rs trackNum) > 1 then [TrackMultiplyCovered trackNum]
        else [])"
  have c: "coverageErrors rs T n = concat (map f [1 .. n])"
    unfolding coverageErrors_def f_def ..
  from assms(2,3) have "pos \<in> set [1 .. n]" by simp
  then have "f pos \<in> f ` set [1 .. n]" by (rule imageI)
  then have "f pos \<in> set (map f [1 .. n])" by (simp only: set_map)
  with assms(1) c have "f pos = []" by (metis concat_eq_Nil_conv)
  then have "(if pos \<in> T then []
        else if length (coveringRanges rs pos) = 0 then [TrackNotCovered pos]
        else if length (coveringRanges rs pos) > 1 then [TrackMultiplyCovered pos]
        else []) = []"
    unfolding f_def .
  with assms(4) have "length (coveringRanges rs pos) \<noteq> 0"
    by (auto split: if_splits)
  then obtain r where "r \<in> set (coveringRanges rs pos)"
    by (cases "coveringRanges rs pos") auto
  then show ?thesis unfolding coveringRanges_def by auto
qed

lemma occurrences_append:
  "occurrences pos (ps @ qs) = occurrences pos ps + occurrences pos qs"
  by (simp add: occurrences_def)

lemma occurrences_Nil: "occurrences pos [] = 0"
  by (simp add: occurrences_def)

lemma occurrences_mkPair:
  "occurrences pos [mkPair tracks a b] = (if a = pos then 1 else 0) + (if b = pos then 1 else 0)"
  by (simp add: occurrences_def mkPair_def)

lemma foldl_processTrio:
  "foldl (processTrio tracks) st ts =
     \<lparr>pairs = pairs st @ concat (map (trioPairs tracks) ts),
      usedPositions = usedPositions st \<union> (\<Union>t \<in> set ts. {sampleA t, sampleB t})\<rparr>"
proof (induction ts arbitrary: st)
  case Nil
  then show ?case by simp
next
  case (Cons t ts)
  have "processTrio tracks st t =
        \<lparr>pairs = pairs st @ trioPairs tracks t,
         usedPositions = insert (sampleB t) (insert (sampleA t) (usedPositions st))\<rparr>"
    by (simp add: processTrio_def trioPairs_def)
  then show ?case
    unfolding foldl_Cons Cons.IH by auto
qed

lemma foldl_markOriginal:
  "foldl markOriginal st ts =
     st\<lparr>usedPositions := usedPositions st \<union> trio_original ` set ts\<rparr>"
proof (induction ts arbitrary: st)
  case Nil
  then show ?case by simp
next
  case (Cons t ts)
  show ?case
    unfolding foldl_Cons Cons.IH
    by (auto simp: markOriginal_def)
qed

lemma processTrios_eq:
  "processTrios tracks ts =
     \<lparr>pairs = concat (map (trioPairs tracks) ts),
      usedPositions = (\<Union>t \<in> set ts. set (trioTrackList t))\<rparr>"
  unfolding processTrios_def foldl_processTrio foldl_markOriginal
  by (auto simp: trioTrackList_def)

lemma occurrences_trioPairs:
  assumes "distinct (trioTrackList t)"
  shows "occurrences pos (trioPairs tracks t) =
           (if pos = trio_original t then 2 else if pos \<in> {sampleA t, sampleB t} then 1 else 0)"
  using assms by (auto simp: occurrences_def trioPairs_def mkPair_def trioTrackList_def)

lemma occurrences_trios:
  assumes "distinct (concat (map trioTrackList ts))"
  shows "occurrences pos (concat (map (trioPairs tracks) ts)) =
           (if pos \<in> trio_original ` set ts then 2
            else if pos \<in> (\<Union>t \<in> set ts. {sampleA t, sampleB t}) then 1 else 0)"
  using assms
proof (induction ts)
  case Nil
  then show ?case by (simp add: occurrences_Nil)
next
  case (Cons t ts)
  from Cons.prems have d: "distinct (trioTrackList t)"
    and r: "distinct (concat (map trioTrackList ts))"
    and x: "set (trioTrackList t) \<inter> (\<Union>u \<in> set ts. set (trioTrackList u)) = {}"
    by auto
  have t: "set (trioTrackList u) = {trio_original u, sampleA u, sampleB u}" for u
    by (simp add: trioTrackList_def)
  from d have dd: "trio_original t \<noteq> sampleA t" "trio_original t \<noteq> sampleB t"
    by (auto simp: trioTrackList_def)
  from x have xo: "trio_original t \<notin> trio_original ` set ts"
      "trio_original t \<notin> (\<Union>u \<in> set ts. {sampleA u, sampleB u})"
      "sampleA t \<notin> trio_original ` set ts" "sampleB t \<notin> trio_original ` set ts"
      "sampleA t \<notin> (\<Union>u \<in> set ts. {sampleA u, sampleB u})"
      "sampleB t \<notin> (\<Union>u \<in> set ts. {sampleA u, sampleB u})"
    unfolding t by auto
  show ?case
    unfolding list.map concat.simps occurrences_append occurrences_trioPairs [OF d] Cons.IH [OF r]
    using dd xo by auto
qed

lemma count_list_distinct:
  "distinct xs \<Longrightarrow> count_list xs x = (if x \<in> set xs then 1 else 0)"
  by (induction xs) auto

lemma occurrences_zip:
  assumes "length os = length ss"
  shows "occurrences pos (map (\<lambda>(opos, spos). mkPair tracks opos spos) (zip os ss)) =
           count_list os pos + count_list ss pos"
proof -
  have "map originalPos (map (\<lambda>(opos, spos). mkPair tracks opos spos) (zip os ss)) =
        map fst (zip os ss)"
    by (simp add: mkPair_def case_prod_beta)
  moreover have "map sampledPos (map (\<lambda>(opos, spos). mkPair tracks opos spos) (zip os ss)) =
        map snd (zip os ss)"
    by (simp add: mkPair_def case_prod_beta)
  ultimately show ?thesis
    unfolding occurrences_def using assms by simp
qed

lemma occurrences_sort_key: "occurrences pos (sort_key f ps) = occurrences pos ps"
proof -
  have "count_list (map g (sort_key f ps)) pos = count_list (map g ps) pos" for g :: "pair \<Rightarrow> int"
  proof -
    have "mset (map g (sort_key f ps)) = mset (map g ps)" by simp
    then show ?thesis by (metis count_mset)
  qed
  then show ?thesis unfolding occurrences_def by simp
qed

lemma available_split:
  "distinct (rangeOriginals st r)" "distinct (rangeSamples st r)"
  "set (rangeOriginals st r) \<union> set (rangeSamples st r) =
     {range_start r .. range_end r} - usedPositions st"
  "set (rangeOriginals st r) \<inter> set (rangeSamples st r) = {}"
  unfolding rangeOriginals_def rangeSamples_def availablePositions_def by auto

lemma processRange_Inr:
  assumes "processRange tracks st i r = Inr st'"
  shows "usedPositions st' = usedPositions st \<union> {range_start r .. range_end r}"
    and "occurrences pos (pairs st') = occurrences pos (pairs st) +
           (if pos \<in> {range_start r .. range_end r} - usedPositions st then 1 else 0)"
    and "pairs st' = pairs st @ map (\<lambda>(opos, spos). mkPair tracks opos spos)
                                   (zip (rangeOriginals st r) (rangeSamples st r))"
proof -
  from assms have len: "length (rangeOriginals st r) = length (rangeSamples st r)"
    and st': "st' = \<lparr>pairs = pairs st @ map (\<lambda>(opos, spos). mkPair tracks opos spos)
                                          (zip (rangeOriginals st r) (rangeSamples st r)),
                   usedPositions = usedPositions st \<union> set (rangeOriginals st r)
                                     \<union> set (rangeSamples st r)\<rparr>"
    unfolding processRange_def Let_def by (auto split: if_splits)
  show "usedPositions st' = usedPositions st \<union> {range_start r .. range_end r}"
    using available_split(3) [of st r] unfolding st' by auto
  show "pairs st' = pairs st @ map (\<lambda>(opos, spos). mkPair tracks opos spos)
                                   (zip (rangeOriginals st r) (rangeSamples st r))"
    unfolding st' by simp
  have "count_list (rangeOriginals st r) pos + count_list (rangeSamples st r) pos =
        (if pos \<in> {range_start r .. range_end r} - usedPositions st then 1 else 0)"
    unfolding count_list_distinct [OF available_split(1)] count_list_distinct [OF available_split(2)]
    using available_split(3,4) [of st r] by auto
  then show "occurrences pos (pairs st') = occurrences pos (pairs st) +
           (if pos \<in> {range_start r .. range_end r} - usedPositions st then 1 else 0)"
    unfolding st' by (simp add: occurrences_append occurrences_zip [OF len])
qed

lemma processRanges_Inr:
  assumes "processRanges tracks st i rs = Inr st'"
  shows "usedPositions st' =
           usedPositions st \<union> (\<Union>r \<in> set rs. {range_start r .. range_end r}) \<and>
         occurrences pos (pairs st') = occurrences pos (pairs st) +
           (if pos \<in> (\<Union>r \<in> set rs. {range_start r .. range_end r}) - usedPositions st
            then 1 else 0)"
  using assms
proof (induction rs arbitrary: st i)
  case Nil
  then show ?case by simp
next
  case (Cons r rs)
  from Cons.prems obtain st1 where
    1: "processRange tracks st i r = Inr st1" and
    2: "processRanges tracks st1 (i + 1) rs = Inr st'"
    by (auto split: sum.splits)
  note a = processRange_Inr(1) [OF 1] processRange_Inr(2) [OF 1, of pos]
  note b = Cons.IH [OF 2]
  show ?case
    unfolding conjunct1 [OF b] conjunct2 [OF b] a by auto
qed

lemma processRanges_pairs:
  assumes "processRanges tracks st i rs = Inr st'" and "q \<in> set (pairs st')"
  shows "q \<in> set (pairs st) \<or>
         (\<exists>r \<in> set rs. \<exists>opos spos. q = mkPair tracks opos spos \<and>
             opos \<in> {range_start r .. range_end r} \<and> spos \<in> {range_start r .. range_end r} \<and>
             isOriginalPos (range_mapping r) opos \<and> \<not> isOriginalPos (range_mapping r) spos)"
  using assms
proof (induction rs arbitrary: st i)
  case Nil
  then show ?case by simp
next
  case (Cons r rs)
  from Cons.prems(1) obtain st1 where
    1: "processRange tracks st i r = Inr st1" and
    2: "processRanges tracks st1 (i + 1) rs = Inr st'"
    by (auto split: sum.splits)
  from Cons.IH [OF 2 Cons.prems(2)] consider
      "q \<in> set (pairs st1)"
    | "\<exists>r \<in> set rs. \<exists>opos spos. q = mkPair tracks opos spos \<and>
             opos \<in> {range_start r .. range_end r} \<and> spos \<in> {range_start r .. range_end r} \<and>
             isOriginalPos (range_mapping r) opos \<and> \<not> isOriginalPos (range_mapping r) spos"
    by blast
  then show ?case
  proof cases
    case 1
    then consider "q \<in> set (pairs st)"
      | "\<exists>opos spos. q = mkPair tracks opos spos \<and>
           (opos, spos) \<in> set (zip (rangeOriginals st r) (rangeSamples st r))"
      unfolding processRange_Inr(3) [OF \<open>processRange tracks st i r = Inr st1\<close>] by auto
    then show ?thesis
    proof cases
      case 1
      then show ?thesis by simp
    next
      case 2
      then obtain opos spos where q: "q = mkPair tracks opos spos"
        and o: "opos \<in> set (rangeOriginals st r)" and s: "spos \<in> set (rangeSamples st r)"
        by (auto dest: set_zip_leftD set_zip_rightD)
      from o have "opos \<in> {range_start r .. range_end r} \<and> isOriginalPos (range_mapping r) opos"
        unfolding rangeOriginals_def availablePositions_def by simp
      moreover from s have "spos \<in> {range_start r .. range_end r} \<and>
          \<not> isOriginalPos (range_mapping r) spos"
        unfolding rangeSamples_def availablePositions_def by simp
      ultimately show ?thesis using q by auto
    qed
  next
    case 2
    then show ?thesis by auto
  qed
qed

lemma buildPairs_state:
  assumes "buildPairsFromPlan tracks p = Inr ps"
  obtains st where "processRanges tracks (processTrios tracks (trios p)) 0 (ranges p) = Inr st"
    and "ps = sort_key minPos (pairs st)"
  using assms unfolding buildPairsFromPlan_def buildState_def by (auto split: sum.splits)

lemma in_trioPairs:
  assumes "q \<in> set (concat (map (trioPairs tracks) ts))"
  shows "\<exists>t \<in> set ts. originalPos q = trio_original t \<and>
            (sampledPos q = sampleA t \<or> sampledPos q = sampleB t)"
  using assms by (auto simp: trioPairs_def mkPair_def)

text \<open>
  C10. When the plan passes \<open>validatePlan\<close> for the length of the track list and the build
  returns a pair list, every pair in it has two different positions, both between 1 and the
  number of tracks. Each pair is either the pair of a trio's original with one of its samples,
  or a pair of one range, joining an even and an odd position of that range (the even one is
  the original under EVEN_ORIGINAL, the odd one under ODD_ORIGINAL).
\<close>

theorem built_pairs_distinct_in_bounds:
  assumes "ok (validatePlan p (int (length tracks)))"
    and "buildPairsFromPlan tracks p = Inr ps"
    and "q \<in> set ps"
  shows "originalPos q \<noteq> sampledPos q \<and>
         1 \<le> originalPos q \<and> originalPos q \<le> int (length tracks) \<and>
         1 \<le> sampledPos q \<and> sampledPos q \<le> int (length tracks) \<and>
         ((\<exists>t \<in> set (trios p). originalPos q = trio_original t \<and>
              (sampledPos q = sampleA t \<or> sampledPos q = sampleB t)) \<or>
          (\<exists>r \<in> set (ranges p).
              range_start r \<le> originalPos q \<and> originalPos q \<le> range_end r \<and>
              range_start r \<le> sampledPos q \<and> sampledPos q \<le> range_end r \<and>
              even (originalPos q) = (range_mapping r = EVEN_ORIGINAL) \<and>
              even (sampledPos q) = (range_mapping r = ODD_ORIGINAL)))"
proof -
  let ?n = "int (length tracks)"
  from assms(1) have v: "validationErrors p ?n = []"
    unfolding validatePlan_def by simp
  note tr = validateTrios_Nil [OF validationErrors_Nil(1) [OF v]]
  note rb = validationErrors_Nil(2) [OF v]
  from assms(2) obtain st where
    st: "processRanges tracks (processTrios tracks (trios p)) 0 (ranges p) = Inr st"
    and ps: "ps = sort_key minPos (pairs st)"
    by (rule buildPairs_state)
  from assms(3) have "q \<in> set (pairs st)" unfolding ps by simp
  from processRanges_pairs [OF st this] consider
      (trio) "q \<in> set (concat (map (trioPairs tracks) (trios p)))"
    | (range) r opos spos where "r \<in> set (ranges p)" "q = mkPair tracks opos spos"
        "opos \<in> {range_start r .. range_end r}" "spos \<in> {range_start r .. range_end r}"
        "isOriginalPos (range_mapping r) opos" "\<not> isOriginalPos (range_mapping r) spos"
    unfolding processTrios_eq by auto
  then show ?thesis
  proof cases
    case trio
    from in_trioPairs [OF trio] obtain t where t: "t \<in> set (trios p)"
      "originalPos q = trio_original t" "sampledPos q = sampleA t \<or> sampledPos q = sampleB t"
      by blast
    from tr t(1) have b: "\<forall>x \<in> set (trioTrackList t). 1 \<le> x \<and> x \<le> ?n" by blast
    from tr t(1) have "distinct (trioTrackList t)"
      by (metis distinct_concat_iff imageI list.set_map)
    with b t show ?thesis
      unfolding trioTrackList_def by auto
  next
    case range
    from rb range(1) have b: "1 \<le> range_start r" "range_end r \<le> ?n" by auto
    have eo: "even opos = (range_mapping r = EVEN_ORIGINAL)"
      using range(5) unfolding isOriginalPos_def Let_def
      by (cases "range_mapping r") (auto simp: even_iff_mod_2_eq_zero)
    have es: "even spos = (range_mapping r = ODD_ORIGINAL)"
      using range(6) unfolding isOriginalPos_def Let_def
      by (cases "range_mapping r") (auto simp: even_iff_mod_2_eq_zero)
    have q: "originalPos q = opos" "sampledPos q = spos"
      unfolding range(2) mkPair_def by simp_all
    from eo es have "opos \<noteq> spos" by (cases "range_mapping r") auto
    with b range(1,3,4) eo es show ?thesis
      unfolding q by auto
  qed
qed

lemma mockTracks5: "length (take 5 mockTracks) = 5"
  by (simp add: mockTracks_def)

lemma upto_4_5: "[4 .. 5 :: int] = [4, 5]" by code_simp
lemma upto_1_5: "[1 .. 5 :: int] = [1, 2, 3, 4, 5]" by code_simp

lemma trioPlan_valid: "ok (validatePlan trioPlan 5)"
  by (simp add: trioPlan_def validate_defs upto_1_5 upt_conv_Cons)

lemma trioPlan_build:
  "buildPairsFromPlan tracks trioPlan =
     Inr [mkPair tracks 1 2, mkPair tracks 1 3, mkPair tracks 4 5]"
  by (simp add: trioPlan_def buildPairsFromPlan_def buildState_def processTrios_def processTrio_def
      markOriginal_def processRange_def rangeOriginals_def rangeSamples_def availablePositions_def
      isOriginalPos_def upto_4_5 minPos_def mkPair_def)

theorem built_pairs_distinct_in_bounds_witness:
  "ok (validatePlan trioPlan (int (length (take 5 mockTracks)))) \<and>
   buildPairsFromPlan (take 5 mockTracks) trioPlan =
     Inr [mkPair (take 5 mockTracks) 1 2, mkPair (take 5 mockTracks) 1 3,
          mkPair (take 5 mockTracks) 4 5] \<and>
   mkPair (take 5 mockTracks) 4 5 \<in> set [mkPair (take 5 mockTracks) 1 2,
          mkPair (take 5 mockTracks) 1 3, mkPair (take 5 mockTracks) 4 5] \<and>
   originalPos (mkPair (take 5 mockTracks) 4 5) \<noteq> sampledPos (mkPair (take 5 mockTracks) 4 5) \<and>
   1 \<le> originalPos (mkPair (take 5 mockTracks) 4 5) \<and>
   originalPos (mkPair (take 5 mockTracks) 4 5) \<le> int (length (take 5 mockTracks))"
proof -
  have v: "ok (validatePlan trioPlan (int (length (take 5 mockTracks))))"
    unfolding mockTracks5 using trioPlan_valid by simp
  have m: "mkPair (take 5 mockTracks) 4 5 \<in> set [mkPair (take 5 mockTracks) 1 2,
          mkPair (take 5 mockTracks) 1 3, mkPair (take 5 mockTracks) 4 5]"
    by simp
  from built_pairs_distinct_in_bounds [OF v trioPlan_build m] v trioPlan_build m
  show ?thesis by blast
qed

lemma buildLeftover_state:
  assumes "processRanges tracks (processTrios tracks (trios p)) 0 (ranges p) = Inr st"
  shows "buildLeftover tracks p = Inr (leftoverPositions tracks st)"
  using assms unfolding buildLeftover_def buildState_def by simp

text \<open>
  C1, as the code has it. When the plan passes \<open>validatePlan\<close> for the length of the track
  list and the build returns a pair list, every position from 1 to the number of tracks appears
  in the pairs: exactly twice when it is the original of a trio (its two pairs share it),
  exactly once otherwise; and no position is left over.
\<close>

theorem build_positions_covered:
  assumes "ok (validatePlan p (int (length tracks)))"
    and "buildPairsFromPlan tracks p = Inr ps"
    and "1 \<le> pos" and "pos \<le> int (length tracks)"
  shows "occurrences pos ps = (if pos \<in> trio_original ` set (trios p) then 2 else 1) \<and>
         buildLeftover tracks p = Inr []"
proof -
  let ?n = "int (length tracks)"
  let ?T = "\<Union>t \<in> set (trios p). set (trioTrackList t)"
  let ?R = "\<Union>r \<in> set (ranges p). {range_start r .. range_end r}"
  from assms(1) have v: "validationErrors p ?n = []"
    unfolding validatePlan_def by simp
  note tr = validateTrios_Nil [OF validationErrors_Nil(1) [OF v]]
  note cov = coverageErrors_Nil [OF validationErrors_Nil(3) [OF v]]
  from assms(2) obtain st where
    st: "processRanges tracks (processTrios tracks (trios p)) 0 (ranges p) = Inr st"
    and ps: "ps = sort_key minPos (pairs st)"
    by (rule buildPairs_state)
  have covered: "x \<in> ?T \<union> ?R" if "1 \<le> x" "x \<le> ?n" for x
  proof (cases "x \<in> ?T")
    case False
    from cov [OF that False] show ?thesis by auto
  qed simp
  have used: "usedPositions st = ?T \<union> ?R"
    using processRanges_Inr [OF st, of pos] unfolding processTrios_eq by simp
  have "leftoverPositions tracks st = []"
    unfolding leftoverPositions_def used filter_empty_conv using covered by simp
  then have left: "buildLeftover tracks p = Inr []"
    unfolding buildLeftover_state [OF st] by simp
  have TS: "?T = trio_original ` set (trios p) \<union> (\<Union>t \<in> set (trios p). {sampleA t, sampleB t})"
    unfolding trioTrackList_def by auto
  have "occurrences pos (pairs st) =
          (if pos \<in> trio_original ` set (trios p) then 2
           else if pos \<in> (\<Union>t \<in> set (trios p). {sampleA t, sampleB t}) then 1 else 0) +
          (if pos \<in> ?R - ?T then 1 else 0)"
    using processRanges_Inr [OF st, of pos] occurrences_trios [of "trios p" pos tracks] tr
    unfolding processTrios_eq by simp
  also have "\<dots> = (if pos \<in> trio_original ` set (trios p) then 2 else 1)"
    using covered [OF assms(3,4)] unfolding TS by auto
  finally show ?thesis
    unfolding ps occurrences_sort_key using left by simp
qed

theorem build_positions_covered_witness:
  "ok (validatePlan trioPlan (int (length (take 5 mockTracks)))) \<and>
   buildPairsFromPlan (take 5 mockTracks) trioPlan =
     Inr [mkPair (take 5 mockTracks) 1 2, mkPair (take 5 mockTracks) 1 3,
          mkPair (take 5 mockTracks) 4 5] \<and>
   (1::int) \<le> 4 \<and> (4::int) \<le> int (length (take 5 mockTracks)) \<and>
   occurrences 4 [mkPair (take 5 mockTracks) 1 2, mkPair (take 5 mockTracks) 1 3,
          mkPair (take 5 mockTracks) 4 5] = 1 \<and>
   buildLeftover (take 5 mockTracks) trioPlan = Inr []"
proof -
  have v: "ok (validatePlan trioPlan (int (length (take 5 mockTracks))))"
    unfolding mockTracks5 using trioPlan_valid by simp
  have b: "(1::int) \<le> 4" "(4::int) \<le> int (length (take 5 mockTracks))"
    unfolding mockTracks5 by simp_all
  have "(4::int) \<notin> trio_original ` set (trios trioPlan)"
    by (simp add: trioPlan_def)
  with build_positions_covered [OF v trioPlan_build b] v trioPlan_build b
  show ?thesis by simp
qed

text \<open>
  C1 as stated fails at a trio: for the trio (1, 2, 3) and the range [4,5] over five tracks,
  the plan is valid, nothing is left over, and position 1 appears twice.
\<close>

theorem trio_original_appears_twice:
  "ok (validatePlan trioPlan (int (length (take 5 mockTracks)))) \<and>
   buildPairsFromPlan (take 5 mockTracks) trioPlan =
     Inr [mkPair (take 5 mockTracks) 1 2, mkPair (take 5 mockTracks) 1 3,
          mkPair (take 5 mockTracks) 4 5] \<and>
   buildLeftover (take 5 mockTracks) trioPlan = Inr [] \<and>
   occurrences 1 [mkPair (take 5 mockTracks) 1 2, mkPair (take 5 mockTracks) 1 3,
          mkPair (take 5 mockTracks) 4 5] = 2"
proof -
  have v: "ok (validatePlan trioPlan (int (length (take 5 mockTracks))))"
    unfolding mockTracks5 using trioPlan_valid by simp
  have l: "buildLeftover (take 5 mockTracks) trioPlan = Inr []"
    unfolding mockTracks_def
    by (simp add: trioPlan_def buildLeftover_def buildState_def processTrios_def processTrio_def
      markOriginal_def processRange_def rangeOriginals_def rangeSamples_def availablePositions_def
      isOriginalPos_def upto_4_5 upto_1_5 leftoverPositions_def)
  have o: "occurrences 1 [mkPair (take 5 mockTracks) 1 2, mkPair (take 5 mockTracks) 1 3,
          mkPair (take 5 mockTracks) 4 5] = 2"
    by (simp add: occurrences_def mkPair_def)
  from v trioPlan_build l o show ?thesis by simp
qed

lemma getPairKey_Some: "getPairKey lc (Some p) \<noteq> []"
  by (simp add: getPairKey_def ascii_def)

lemma getPairKey_empty_iff: "getPairKey lc p = [] \<longleftrightarrow> p = None"
  by (cases p) (simp_all add: getPairKey_def ascii_def)

lemma foldl_dedupeStep:
  "map snd (foldl (dedupeStep lc) m xs) =
     map snd m @ keepFirstOfEachKey lc (filter (\<lambda>q. getPairKey lc q \<notin> fst ` set m) xs)"
proof (induction xs arbitrary: m)
  case Nil
  then show ?case by simp
next
  case (Cons p ps)
  show ?case
  proof (cases "getPairKey lc p \<noteq> [] \<and> getPairKey lc p \<notin> fst ` set m")
    case True
    then have step: "dedupeStep lc m p = m @ [(getPairKey lc p, p)]"
      by (simp add: dedupeStep_def)
    have f: "filter (\<lambda>q. getPairKey lc q \<notin> fst ` set (m @ [(getPairKey lc p, p)])) ps =
          filter (\<lambda>q. getPairKey lc q \<noteq> getPairKey lc p)
             (filter (\<lambda>q. getPairKey lc q \<notin> fst ` set m) ps)"
      by (auto intro: filter_cong)
    show ?thesis
      unfolding foldl_Cons step Cons.IH f using True by simp
  next
    case False
    have step: "dedupeStep lc m p = m"
      unfolding dedupeStep_def Let_def using False by (rule if_not_P)
    have "keepFirstOfEachKey lc (filter (\<lambda>q. getPairKey lc q \<notin> fst ` set m) (p # ps)) =
          keepFirstOfEachKey lc (filter (\<lambda>q. getPairKey lc q \<notin> fst ` set m) ps)"
    proof (cases "getPairKey lc p \<in> fst ` set m")
      case True
      then show ?thesis by simp
    next
      case nin: False
      with False have "getPairKey lc p = []" by simp
      with nin show ?thesis by simp
    qed
    then show ?thesis
      unfolding foldl_Cons step Cons.IH by simp
  qed
qed

lemma mergePairs_keepFirst: "mergePairs lc S N = keepFirstOfEachKey lc (S @ N)"
  unfolding mergePairs_def Let_def foldl_dedupeStep by simp

lemma keepFirst_subset: "set (keepFirstOfEachKey lc xs) \<subseteq> set xs"
  by (induction lc xs rule: keepFirstOfEachKey.induct) auto

lemma keepFirst_nonempty_key: "p \<in> set (keepFirstOfEachKey lc xs) \<Longrightarrow> getPairKey lc p \<noteq> []"
  by (induction lc xs rule: keepFirstOfEachKey.induct) (auto split: if_splits)

lemma keepFirst_distinct: "distinct (map (getPairKey lc) (keepFirstOfEachKey lc xs))"
proof (induction lc xs rule: keepFirstOfEachKey.induct)
  case 1
  then show ?case by simp
next
  case (2 lc p ps)
  show ?case
  proof (cases "getPairKey lc p = []")
    case True
    with 2 show ?thesis by simp
  next
    case False
    have "getPairKey lc p \<notin> getPairKey lc ` set (keepFirstOfEachKey lc
            (filter (\<lambda>q. getPairKey lc q \<noteq> getPairKey lc p) ps))"
      using keepFirst_subset [of lc "filter (\<lambda>q. getPairKey lc q \<noteq> getPairKey lc p) ps"] by auto
    with 2 False show ?thesis by simp
  qed
qed

lemma keepFirst_id:
  "distinct (map (getPairKey lc) xs) \<Longrightarrow> [] \<notin> getPairKey lc ` set xs \<Longrightarrow> keepFirstOfEachKey lc xs = xs"
proof (induction xs)
  case Nil
  then show ?case by simp
next
  case (Cons p ps)
  from Cons.prems have nin: "getPairKey lc p \<notin> getPairKey lc ` set ps"
    and d: "distinct (map (getPairKey lc) ps)" and e: "[] \<notin> getPairKey lc ` set ps"
    and ne: "getPairKey lc p \<noteq> []"
    by auto
  from nin have "\<forall>q \<in> set ps. getPairKey lc q \<noteq> getPairKey lc p"
    by (metis imageI)
  then have "filter (\<lambda>q. getPairKey lc q \<noteq> getPairKey lc p) ps = ps"
    unfolding filter_id_conv .
  with Cons.IH [OF d e] ne show ?case by simp
qed

lemma find_filter_implied:
  "(\<And>x. P x \<Longrightarrow> Q x) \<Longrightarrow> find P (filter Q xs) = find P xs"
  by (induction xs) auto

lemma keepFirst_find:
  "k \<noteq> [] \<Longrightarrow> find (\<lambda>q. getPairKey lc q = k) (keepFirstOfEachKey lc xs) = find (\<lambda>q. getPairKey lc q = k) xs"
proof (induction lc xs rule: keepFirstOfEachKey.induct)
  case 1
  then show ?case by simp
next
  case (2 lc p ps)
  show ?case
  proof (cases "getPairKey lc p = []")
    case True
    with 2 show ?thesis by auto
  next
    case False
    show ?thesis
    proof (cases "getPairKey lc p = k")
      case True
      with False show ?thesis by simp
    next
      case nk: False
      have "find (\<lambda>q. getPairKey lc q = k) (filter (\<lambda>q. getPairKey lc q \<noteq> getPairKey lc p) ps) =
            find (\<lambda>q. getPairKey lc q = k) ps"
        using nk by (intro find_filter_implied) auto
      with 2 False nk show ?thesis by simp
    qed
  qed
qed

lemma find_append_left:
  "x \<in> set xs \<Longrightarrow> P x \<Longrightarrow> find P (xs @ ys) = find P xs"
  by (induction xs) auto

lemma keepFirst_double: "keepFirstOfEachKey lc (xs @ xs) = keepFirstOfEachKey lc xs"
proof -
  have "map snd (foldl (dedupeStep lc) m ys) = map snd m"
    if "\<forall>p \<in> set ys. getPairKey lc p = [] \<or> getPairKey lc p \<in> fst ` set m" for m ys
  proof -
    from that have "\<forall>q \<in> set (filter (\<lambda>q. getPairKey lc q \<notin> fst ` set m) ys). getPairKey lc q = []"
      by auto
    moreover have "keepFirstOfEachKey lc zs = []" if "\<forall>q \<in> set zs. getPairKey lc q = []" for zs
      using that by (induction zs) auto
    ultimately show ?thesis unfolding foldl_dedupeStep by simp
  qed
  note absorb = this
  have keys: "fst ` set (foldl (dedupeStep lc) m ys) = fst ` set m \<union> (getPairKey lc ` set ys - {[]})" for m ys
    by (induction ys arbitrary: m) (auto simp: dedupeStep_def Let_def)
  have "keepFirstOfEachKey lc (xs @ xs) = map snd (foldl (dedupeStep lc) (foldl (dedupeStep lc) [] xs) xs)"
    using foldl_dedupeStep [of lc "[]" "xs @ xs"] by simp
  also have "\<dots> = map snd (foldl (dedupeStep lc) [] xs)"
    by (rule absorb) (auto simp: keys)
  also have "\<dots> = keepFirstOfEachKey lc xs"
    using foldl_dedupeStep [of lc "[]" xs] by simp
  finally show ?thesis .
qed

lemma getPairKey_no_tracks:
  "orElse (original p) (originalTrack p) = None \<Longrightarrow>
   orElse (sampled p) (sampledTrack p) = None \<Longrightarrow> getPairKey lc (Some p) = ascii ''O:||S:''"
  by (simp add: getPairKey_def keyForSong_def ascii_def)

lemma getPairKey_Some_sym: "[] \<noteq> getPairKey lc (Some p)"
  using getPairKey_Some [of lc p] by simp

text \<open>
  C5, as the code has it. For every stored list S, merging S with itself gives the same as
  merging S with the empty batch, the result has no two pairs with the same key, and a merge
  result merged with the empty batch is unchanged. When S holds no absent pair and no two
  pairs with the same key, both \<open>merge(S, [])\<close> and \<open>merge(S, S)\<close> are S itself.
  All of it holds whatever function \<open>toLowerCase\<close> is.
\<close>

theorem merge_identity_and_idempotent:
  "mergePairs toLowerCase S S = mergePairs toLowerCase S [] \<and>
   distinct (map (getPairKey toLowerCase) (mergePairs toLowerCase S [])) \<and>
   mergePairs toLowerCase (mergePairs toLowerCase S N) [] = mergePairs toLowerCase S N \<and>
   (distinct (map (getPairKey toLowerCase) S) \<and> [] \<notin> getPairKey toLowerCase ` set S \<longrightarrow>
      mergePairs toLowerCase S [] = S \<and> mergePairs toLowerCase S S = S)"
proof -
  have 1: "mergePairs toLowerCase S S = mergePairs toLowerCase S []"
    unfolding mergePairs_keepFirst keepFirst_double by simp
  have 2: "distinct (map (getPairKey toLowerCase) (mergePairs toLowerCase S []))"
    unfolding mergePairs_keepFirst by (rule keepFirst_distinct)
  have "[] \<notin> getPairKey toLowerCase ` set (keepFirstOfEachKey toLowerCase (S @ N))"
    using keepFirst_nonempty_key [of _ toLowerCase "S @ N"] by (metis imageE)
  then have 3: "mergePairs toLowerCase (mergePairs toLowerCase S N) [] = mergePairs toLowerCase S N"
    unfolding mergePairs_keepFirst append_Nil2
    by (intro keepFirst_id keepFirst_distinct)
  have 4: "mergePairs toLowerCase S [] = S \<and> mergePairs toLowerCase S S = S"
    if "distinct (map (getPairKey toLowerCase) S) \<and> [] \<notin> getPairKey toLowerCase ` set S"
    using that 1 keepFirst_id [of toLowerCase S] unfolding mergePairs_keepFirst by simp
  from 1 2 3 4 show ?thesis by blast
qed

theorem merge_identity_and_idempotent_witness:
  "distinct (map (getPairKey basicLatinLowerCase) [Some (mkPair mockTracks 1 2)]) \<and>
   [] \<notin> getPairKey basicLatinLowerCase ` set [Some (mkPair mockTracks 1 2)] \<and>
   mergePairs basicLatinLowerCase [Some (mkPair mockTracks 1 2)] [] = [Some (mkPair mockTracks 1 2)] \<and>
   mergePairs basicLatinLowerCase [Some (mkPair mockTracks 1 2)] [Some (mkPair mockTracks 1 2)] =
     [Some (mkPair mockTracks 1 2)]"
  using merge_identity_and_idempotent [of basicLatinLowerCase "[Some (mkPair mockTracks 1 2)]" "[]"]
  by (simp add: getPairKey_Some getPairKey_Some_sym)

text \<open>
  C5 as stated fails for a stored list that holds the same pair twice: merging it with the
  empty batch returns one pair, not the stored list.
\<close>

theorem merge_of_duplicated_store:
  "mergePairs basicLatinLowerCase [Some (mkPair mockTracks 1 2), Some (mkPair mockTracks 1 2)] [] =
     [Some (mkPair mockTracks 1 2)] \<and>
   mergePairs basicLatinLowerCase [Some (mkPair mockTracks 1 2), Some (mkPair mockTracks 1 2)] [] \<noteq>
     [Some (mkPair mockTracks 1 2), Some (mkPair mockTracks 1 2)]"
  unfolding mergePairs_keepFirst by (simp add: getPairKey_Some)

text \<open>
  C6, as the code has it. The merge is the concatenation of stored and new pairs reduced to
  the first pair of each key, without the pairs of empty key; every stored pair's key is
  represented by the first stored pair of that key, so a stored pair wins against a new one.
  The key is empty exactly for an absent pair: a pair whose tracks are absent has the key
  \<open>O:||S:\<close> and is treated like any other pair. All of it holds whatever function
  \<open>toLowerCase\<close> is.
\<close>

theorem merge_keeps_first_of_each_key:
  "mergePairs toLowerCase storedPairs newPairs = specMerge toLowerCase storedPairs newPairs \<and>
   (\<forall>p \<in> set (mergePairs toLowerCase storedPairs newPairs).
       p \<in> set (storedPairs @ newPairs) \<and> getPairKey toLowerCase p \<noteq> []) \<and>
   (\<forall>s \<in> set storedPairs. getPairKey toLowerCase s \<noteq> [] \<longrightarrow>
       find (\<lambda>q. getPairKey toLowerCase q = getPairKey toLowerCase s) (mergePairs toLowerCase storedPairs newPairs) =
       find (\<lambda>q. getPairKey toLowerCase q = getPairKey toLowerCase s) storedPairs) \<and>
   (\<forall>p. (getPairKey toLowerCase p = []) = (p = None)) \<and>
   (\<forall>p. orElse (original p) (originalTrack p) = None \<and>
        orElse (sampled p) (sampledTrack p) = None \<longrightarrow>
        getPairKey toLowerCase (Some p) = ascii ''O:||S:'')"
proof -
  have 1: "mergePairs toLowerCase storedPairs newPairs = specMerge toLowerCase storedPairs newPairs"
    unfolding specMerge_def by (rule mergePairs_keepFirst)
  have 2: "\<forall>p \<in> set (mergePairs toLowerCase storedPairs newPairs).
       p \<in> set (storedPairs @ newPairs) \<and> getPairKey toLowerCase p \<noteq> []"
    unfolding mergePairs_keepFirst
    using keepFirst_subset [of toLowerCase "storedPairs @ newPairs"] keepFirst_nonempty_key by blast
  have 3: "find (\<lambda>q. getPairKey toLowerCase q = getPairKey toLowerCase s) (mergePairs toLowerCase storedPairs newPairs) =
       find (\<lambda>q. getPairKey toLowerCase q = getPairKey toLowerCase s) storedPairs"
    if "s \<in> set storedPairs" "getPairKey toLowerCase s \<noteq> []" for s
    unfolding mergePairs_keepFirst keepFirst_find [OF that(2)]
    using that(1) by (intro find_append_left [of s]) simp_all
  from 1 2 3 getPairKey_empty_iff getPairKey_no_tracks show ?thesis by blast
qed

theorem merge_keeps_first_of_each_key_witness:
  "Some (mkPair mockTracks 1 2) \<in> set [Some (mkPair mockTracks 1 2)] \<and>
   getPairKey basicLatinLowerCase (Some (mkPair mockTracks 1 2)) \<noteq> [] \<and>
   getPairKey basicLatinLowerCase (Some ((mkPair mockTracks 1 2)\<lparr>originalPos := 7\<rparr>)) =
     getPairKey basicLatinLowerCase (Some (mkPair mockTracks 1 2)) \<and>
   find (\<lambda>q. getPairKey basicLatinLowerCase q = getPairKey basicLatinLowerCase (Some (mkPair mockTracks 1 2)))
     (mergePairs basicLatinLowerCase [Some (mkPair mockTracks 1 2)]
                 [Some ((mkPair mockTracks 1 2)\<lparr>originalPos := 7\<rparr>)]) =
     Some (Some (mkPair mockTracks 1 2)) \<and>
   orElse (original (mkPair [] 1 2)) (originalTrack (mkPair [] 1 2)) = None \<and>
   orElse (sampled (mkPair [] 1 2)) (sampledTrack (mkPair [] 1 2)) = None \<and>
   getPairKey basicLatinLowerCase (Some (mkPair [] 1 2)) = ascii ''O:||S:''"
proof -
  have a: "orElse (original (mkPair [] 1 2)) (originalTrack (mkPair [] 1 2)) = None \<and>
     orElse (sampled (mkPair [] 1 2)) (sampledTrack (mkPair [] 1 2)) = None"
    by (simp add: mkPair_def trackAt_def orElse_def)
  have b: "getPairKey basicLatinLowerCase (Some ((mkPair mockTracks 1 2)\<lparr>originalPos := 7\<rparr>)) =
     getPairKey basicLatinLowerCase (Some (mkPair mockTracks 1 2))"
    by (simp add: getPairKey_def)
  note m = merge_keeps_first_of_each_key
         [of basicLatinLowerCase "[Some (mkPair mockTracks 1 2)]"
             "[Some ((mkPair mockTracks 1 2)\<lparr>originalPos := 7\<rparr>)]"]
  have c: "Some (mkPair mockTracks 1 2) \<in> set [Some (mkPair mockTracks 1 2)]" by simp
  from m have "\<forall>s \<in> set [Some (mkPair mockTracks 1 2)]. getPairKey basicLatinLowerCase s \<noteq> [] \<longrightarrow>
       find (\<lambda>q. getPairKey basicLatinLowerCase q = getPairKey basicLatinLowerCase s)
         (mergePairs basicLatinLowerCase [Some (mkPair mockTracks 1 2)]
                     [Some ((mkPair mockTracks 1 2)\<lparr>originalPos := 7\<rparr>)]) =
       find (\<lambda>q. getPairKey basicLatinLowerCase q = getPairKey basicLatinLowerCase s) [Some (mkPair mockTracks 1 2)]"
    by blast
  with c getPairKey_Some have
    "find (\<lambda>q. getPairKey basicLatinLowerCase q = getPairKey basicLatinLowerCase (Some (mkPair mockTracks 1 2)))
         (mergePairs basicLatinLowerCase [Some (mkPair mockTracks 1 2)]
                     [Some ((mkPair mockTracks 1 2)\<lparr>originalPos := 7\<rparr>)]) =
       find (\<lambda>q. getPairKey basicLatinLowerCase q = getPairKey basicLatinLowerCase (Some (mkPair mockTracks 1 2)))
         [Some (mkPair mockTracks 1 2)]"
    by blast
  then have d: "find (\<lambda>q. getPairKey basicLatinLowerCase q = getPairKey basicLatinLowerCase (Some (mkPair mockTracks 1 2)))
         (mergePairs basicLatinLowerCase [Some (mkPair mockTracks 1 2)]
                     [Some ((mkPair mockTracks 1 2)\<lparr>originalPos := 7\<rparr>)]) =
       Some (Some (mkPair mockTracks 1 2))"
    by simp
  from m have "\<forall>p. orElse (original p) (originalTrack p) = None \<and>
        orElse (sampled p) (sampledTrack p) = None \<longrightarrow>
        getPairKey basicLatinLowerCase (Some p) = ascii ''O:||S:''"
    by blast
  with a have e: "getPairKey basicLatinLowerCase (Some (mkPair [] 1 2)) = ascii ''O:||S:''" by blast
  from a b c d e getPairKey_Some show ?thesis by blast
qed

text \<open>
  C6 as stated fails for a pair whose tracks are absent: its key is not empty and the merge
  keeps it.
\<close>

theorem merge_keeps_pair_without_tracks:
  "originalTrack (mkPair [] 1 2) = None \<and> sampledTrack (mkPair [] 1 2) = None \<and>
   original (mkPair [] 1 2) = None \<and> sampled (mkPair [] 1 2) = None \<and>
   getPairKey basicLatinLowerCase (Some (mkPair [] 1 2)) = ascii ''O:||S:'' \<and>
   mergePairs basicLatinLowerCase [] [Some (mkPair [] 1 2)] = [Some (mkPair [] 1 2)]"
proof -
  have "getPairKey basicLatinLowerCase (Some (mkPair [] 1 2)) = ascii ''O:||S:''"
    by (intro getPairKey_no_tracks) (simp_all add: mkPair_def trackAt_def orElse_def)
  moreover have "mergePairs basicLatinLowerCase [] [Some (mkPair [] 1 2)] = [Some (mkPair [] 1 2)]"
    unfolding mergePairs_keepFirst by (simp add: getPairKey_Some)
  ultimately show ?thesis by (simp add: mkPair_def trackAt_def)
qed

lemma singleSpaced_replaceSpaceRuns:
  "(p \<longrightarrow> r) \<Longrightarrow> singleSpaced p (replaceSpaceRuns r s)"
  by (induction s arbitrary: p r) (auto simp: isSpace_def)

lemma replaceSpaceRuns_id: "singleSpaced p s \<Longrightarrow> replaceSpaceRuns p s = s"
  by (induction s arbitrary: p) (auto split: if_splits)

lemma singleSpaced_weaken: "singleSpaced p s \<Longrightarrow> singleSpaced False s"
  by (cases s) (auto split: if_splits)

lemma singleSpaced_dropWhile: "singleSpaced p s \<Longrightarrow> singleSpaced False (dropWhile isSpace s)"
  by (induction s arbitrary: p) (auto split: if_splits)

lemma singleSpaced_prefix: "singleSpaced p (a @ b) \<Longrightarrow> singleSpaced p a"
  by (induction a arbitrary: p) (auto split: if_splits)

lemma trim_prefix_of_dropWhile:
  "dropWhile isSpace s = trim s @ rev (takeWhile isSpace (rev (dropWhile isSpace s)))"
  unfolding trim_def by (metis rev_append rev_rev_ident takeWhile_dropWhile_id)

lemma singleSpaced_trim: "singleSpaced p s \<Longrightarrow> singleSpaced False (trim s)"
proof -
  assume "singleSpaced p s"
  then have "singleSpaced False (dropWhile isSpace s)" by (rule singleSpaced_dropWhile)
  then have "singleSpaced False (trim s @ rev (takeWhile isSpace (rev (dropWhile isSpace s))))"
    using trim_prefix_of_dropWhile [of s] by simp
  then show ?thesis by (rule singleSpaced_prefix)
qed

lemma trim_trim: "trim (trim s) = trim s"
proof -
  let ?d = "dropWhile isSpace s"
  let ?y = "trim s"
  have ry: "rev ?y = dropWhile isSpace (rev ?d)" unfolding trim_def by simp
  have 1: "dropWhile isSpace ?y = ?y"
  proof (cases "?y = []")
    case False
    from trim_prefix_of_dropWhile [of s] False have "hd ?d = hd ?y" "?d \<noteq> []"
      by (metis hd_append2, metis append_is_Nil_conv)
    then have "\<not> isSpace (hd ?y)" using hd_dropWhile [of isSpace s] by simp
    with False show ?thesis by (cases ?y) auto
  qed simp
  have 2: "dropWhile isSpace (rev ?y) = rev ?y"
    unfolding ry by (rule dropWhile_idem)
  show ?thesis
    unfolding trim_def [of ?y] 1 2 by simp
qed

lemma set_trim: "set (trim s) \<subseteq> set s"
proof
  fix c assume "c \<in> set (trim s)"
  then have "c \<in> set (dropWhile isSpace (rev (dropWhile isSpace s)))"
    unfolding trim_def by simp
  then have "c \<in> set (rev (dropWhile isSpace s))" by (rule set_dropWhileD)
  then have "c \<in> set (dropWhile isSpace s)" by simp
  then show "c \<in> set s" by (rule set_dropWhileD)
qed

lemma length_trim: "length (trim s) \<le> length s"
proof -
  have "length (trim s) \<le> length (dropWhile isSpace s)"
    unfolding trim_def using length_dropWhile_le [of isSpace "rev (dropWhile isSpace s)"] by simp
  also have "\<dots> \<le> length s" by (rule length_dropWhile_le)
  finally show ?thesis .
qed

lemma set_replaceSpaceRuns:
  "c \<in> set (replaceSpaceRuns r s) \<Longrightarrow> c = 32 \<or> (c \<in> set s \<and> \<not> isSpace c)"
  by (induction s arbitrary: r) (auto split: if_splits)

lemma length_replaceSpaceRuns: "length (replaceSpaceRuns r s) \<le> length s"
  by (induction s arbitrary: r) (auto simp: le_SucI)

lemma removeGroups_id: "opening \<notin> set s \<Longrightarrow> removeGroups opening closing False s = s"
  by (induction s) auto

lemma removeSuffixFrom_length: "length (removeSuffixFrom w suffix s) \<le> length s"
  by (induction s arbitrary: w) auto

lemma removeSuffixFrom_shorter:
  "removeSuffixFrom w suffix s \<noteq> s \<Longrightarrow> length (removeSuffixFrom w suffix s) < length s"
  by (induction s arbitrary: w) (auto split: if_splits)

lemma foldl_removeSuffix_length: "length (foldl removeSuffix s sufs) \<le> length s"
proof (induction sufs arbitrary: s)
  case Nil
  then show ?case by simp
next
  case (Cons a sufs)
  have "length (foldl removeSuffix (removeSuffix s a) sufs) \<le> length (removeSuffix s a)"
    by (rule Cons.IH)
  also have "\<dots> \<le> length s"
    unfolding removeSuffix_def by (rule removeSuffixFrom_length)
  finally show ?case by simp
qed

lemma foldl_removeSuffix_id:
  "\<forall>suffix \<in> set sufs. removeSuffix s suffix = s \<Longrightarrow> foldl removeSuffix s sufs = s"
  by (induction sufs) auto

lemma foldl_removeSuffix_shorter:
  "\<exists>suffix \<in> set sufs. removeSuffix s suffix \<noteq> s \<Longrightarrow>
     length (foldl removeSuffix s sufs) < length s"
proof (induction sufs)
  case Nil
  then show ?case by simp
next
  case (Cons a sufs)
  show ?case
  proof (cases "removeSuffix s a = s")
    case True
    with Cons show ?thesis by auto
  next
    case False
    then have "length (removeSuffix s a) < length s"
      unfolding removeSuffix_def by (rule removeSuffixFrom_shorter)
    with foldl_removeSuffix_length [of "removeSuffix s a" sufs] show ?thesis by simp
  qed
qed

lemma normalizeTitle_lowered:
  "normalizeTitle lc x = (if x = [] then [] else normalizeLowered (lc x))"
  unfolding normalizeTitle_def normalizeLowered_def afterBrackets_def titleTail_def Let_def ..

lemma titleTail_Nil: "titleTail [] = []"
  by (simp add: titleTail_def trim_def)

lemma normalizeLowered_Nil: "normalizeLowered [] = []"
  using foldl_removeSuffix_id [of sortedSuffixes "[]"]
  by (simp add: normalizeLowered_def afterBrackets_def replaceDashes_def removeSuffix_def
      titleTail_Nil)

lemma lowercases_basicLatin:
  "lowercasesBasicLatin lc \<Longrightarrow> \<forall>c \<in> set s. c < 128 \<or> c = 8211 \<or> c = 8212 \<Longrightarrow>
     lc s = basicLatinLowerCase s"
  unfolding lowercasesBasicLatin_def by blast

lemma lowercases_Nil: "lowercasesBasicLatin lc \<Longrightarrow> lc [] = []"
  using lowercases_basicLatin [of lc "[]"] by (simp add: basicLatinLowerCase_def)

lemma normalizeTitle_eq:
  "lowercasesBasicLatin lc \<Longrightarrow> normalizeTitle lc x = normalizeLowered (lc x)"
  by (simp add: normalizeTitle_lowered lowercases_Nil normalizeLowered_Nil)

lemma lowercases_normal:
  assumes "lowercasesBasicLatin lc" and "\<forall>c \<in> set y. isLower c \<or> isDigit c \<or> c = 32"
  shows "lc y = y"
proof -
  from assms(2) have "\<forall>c \<in> set y. c < 128 \<or> c = 8211 \<or> c = 8212"
    by (auto simp: isLower_def isDigit_def)
  with assms(1) have "lc y = basicLatinLowerCase y" by (rule lowercases_basicLatin)
  also have "\<dots> = y"
    unfolding basicLatinLowerCase_def using assms(2)
    by (intro map_idI) (auto simp: isLower_def isDigit_def isUpper_def)
  finally show ?thesis .
qed

lemma lowercases_self: "lowercasesBasicLatin basicLatinLowerCase"
  unfolding lowercasesBasicLatin_def by simp

lemma titleTail_chars: "c \<in> set (titleTail s) \<Longrightarrow> isLower c \<or> isDigit c \<or> c = 32"
proof -
  assume "c \<in> set (titleTail s)"
  then have "c \<in> set (replaceSpaceRuns False (filter (\<lambda>c. isLower c \<or> isDigit c \<or> isSpace c) s))"
    unfolding titleTail_def using set_trim by blast
  from set_replaceSpaceRuns [OF this] show ?thesis by auto
qed

lemma titleTail_spaced: "singleSpaced False (titleTail s)"
  unfolding titleTail_def
  by (rule singleSpaced_trim [of False]) (simp add: singleSpaced_replaceSpaceRuns)

lemma titleTail_trimmed: "trim (titleTail s) = titleTail s"
  unfolding titleTail_def by (rule trim_trim)

lemma titleTail_length: "length (titleTail s) \<le> length s"
proof -
  have "length (titleTail s) \<le> length (replaceSpaceRuns False
                   (filter (\<lambda>c. isLower c \<or> isDigit c \<or> isSpace c) s))"
    unfolding titleTail_def by (rule length_trim)
  also have "\<dots> \<le> length (filter (\<lambda>c. isLower c \<or> isDigit c \<or> isSpace c) s)"
    by (rule length_replaceSpaceRuns)
  also have "\<dots> \<le> length s" by simp
  finally show ?thesis .
qed

text \<open>On a string in normal form only the suffix loop can change anything.\<close>

lemma normalizeLowered_on_normal_form:
  assumes chars: "\<forall>c \<in> set y. isLower c \<or> isDigit c \<or> c = 32"
    and spaced: "singleSpaced False y" and trimmed: "trim y = y"
  shows "normalizeLowered y = titleTail (foldl removeSuffix y sortedSuffixes)"
    and "titleTail y = y"
proof -
  have dashes: "replaceDashes y = y"
    unfolding replaceDashes_def using chars
    by (intro map_idI) (auto simp: isLower_def isDigit_def)
  have "40 \<notin> set y" "91 \<notin> set y"
    using chars by (auto simp: isLower_def isDigit_def)
  then have groups: "removeGroups 40 41 False y = y" "removeGroups 91 93 False y = y"
    by (simp_all add: removeGroups_id)
  have "filter (\<lambda>c. isLower c \<or> isDigit c \<or> isSpace c) y = y"
    unfolding filter_id_conv using chars by (auto simp: isSpace_def)
  then show "titleTail y = y"
    unfolding titleTail_def using replaceSpaceRuns_id [OF spaced] trimmed by simp
  show "normalizeLowered y = titleTail (foldl removeSuffix y sortedSuffixes)"
    unfolding normalizeLowered_def afterBrackets_def dashes groups ..
qed

lemma normalizeTitle_normal_form:
  "(\<forall>c \<in> set (normalizeTitle lc x). isLower c \<or> isDigit c \<or> c = 32) \<and>
   singleSpaced False (normalizeTitle lc x) \<and> trim (normalizeTitle lc x) = normalizeTitle lc x"
proof (cases "x = []")
  case True
  then show ?thesis by (simp add: normalizeTitle_def trim_def)
next
  case False
  then show ?thesis
    unfolding normalizeTitle_lowered normalizeLowered_def
    using titleTail_chars titleTail_spaced titleTail_trimmed by auto
qed

text \<open>
  C4, as the code has it. Every normalized title consists of lowercase letters, digits and
  single spaces, without a space at either end, and \<open>toLowerCase\<close> leaves such a string as it
  is. Normalizing it again changes nothing exactly when it has no trailing annotation, that is
  when none of the suffix patterns matches it; when one matches, the second normalization is
  strictly shorter. The suffix loop tries each pattern once, so a normalized title can still
  end in a token.
\<close>

theorem normalizeTitle_idempotent_iff:
  assumes "lowercasesBasicLatin toLowerCase"
  shows "(normalizeTitle toLowerCase (normalizeTitle toLowerCase x) = normalizeTitle toLowerCase x \<longleftrightarrow>
            \<not> hasTrailingAnnotation (normalizeTitle toLowerCase x)) \<and>
         (hasTrailingAnnotation (normalizeTitle toLowerCase x) \<longrightarrow>
            length (normalizeTitle toLowerCase (normalizeTitle toLowerCase x)) <
            length (normalizeTitle toLowerCase x))"
proof -
  let ?y = "normalizeTitle toLowerCase x"
  from normalizeTitle_normal_form [of toLowerCase x] have
    nf: "\<forall>c \<in> set ?y. isLower c \<or> isDigit c \<or> c = 32" "singleSpaced False ?y" "trim ?y = ?y"
    by blast+
  note on = normalizeLowered_on_normal_form [OF nf]
  have "toLowerCase ?y = ?y" by (rule lowercases_normal [OF assms nf(1)])
  moreover have "normalizeTitle toLowerCase ?y = normalizeLowered (toLowerCase ?y)"
    by (rule normalizeTitle_eq [OF assms])
  ultimately have "normalizeTitle toLowerCase ?y = normalizeLowered ?y" by simp
  also have "\<dots> = titleTail (foldl removeSuffix ?y sortedSuffixes)" by (rule on(1))
  finally have again:
    "normalizeTitle toLowerCase ?y = titleTail (foldl removeSuffix ?y sortedSuffixes)" .
  show ?thesis
  proof (cases "hasTrailingAnnotation ?y")
    case True
    then have "length (foldl removeSuffix ?y sortedSuffixes) < length ?y"
      unfolding hasTrailingAnnotation_def by (rule foldl_removeSuffix_shorter)
    with titleTail_length [of "foldl removeSuffix ?y sortedSuffixes"]
    have "length (normalizeTitle toLowerCase ?y) < length ?y"
      unfolding again by simp
    with True show ?thesis by auto
  next
    case False
    then have "foldl removeSuffix ?y sortedSuffixes = ?y"
      unfolding hasTrailingAnnotation_def by (intro foldl_removeSuffix_id) simp
    with again on(2) False show ?thesis by simp
  qed
qed

lemmas char_defs = isSpace_def isDigit_def isLower_def isUpper_def isWord_def matchesIgnoreCase_def
lemmas title_defs = normalizeTitle_def basicLatinLowerCase_def replaceDashes_def removeSuffix_def
  suffixMatchesHere_def suffixTail_def trim_def ascii_def

lemma sortedSuffixes_eq: "sortedSuffixes = map ascii
   [''extended version'', ''single version'', ''deluxe edition'', ''radio version'',
    ''album version'', ''instrumental'', ''remastered'', ''radio edit'', ''remaster'',
    ''extended'', ''explicit'', ''acapella'', ''version'', ''stereo'', ''deluxe'', ''remix'',
    ''clean'', ''edit'', ''mono'', ''live'']"
  by (simp add: sortedSuffixes_def suffixes_def ascii_def)


lemma title_dash_remastered:
  "normalizeTitle basicLatinLowerCase (ascii ''Every Breath I Take - Remastered'') =
     ascii ''every breath i take''"
  by (simp add: title_defs char_defs sortedSuffixes_eq)








lemma title_remix_edit:
  "normalizeTitle basicLatinLowerCase (ascii ''Closer - Remix - Edit'') = ascii ''closer remix''"
  by (simp add: title_defs char_defs sortedSuffixes_eq)

lemma title_closer_remix:
  "normalizeTitle basicLatinLowerCase (ascii ''closer remix'') = ascii ''closer''"
  by (simp add: title_defs char_defs sortedSuffixes_eq)

lemma no_annotation: "\<not> hasTrailingAnnotation (ascii ''every breath i take'')"
  by (simp add: hasTrailingAnnotation_def title_defs char_defs sortedSuffixes_eq)

lemma closer_remix_annotation: "hasTrailingAnnotation (ascii ''closer remix'')"
proof -
  have "removeSuffix (ascii ''closer remix'') (ascii ''remix'') \<noteq> ascii ''closer remix''"
    by (simp add: title_defs char_defs)
  moreover have "ascii ''remix'' \<in> set sortedSuffixes"
    by (simp add: sortedSuffixes_eq)
  ultimately show ?thesis unfolding hasTrailingAnnotation_def by blast
qed

theorem normalizeTitle_idempotent_iff_witness:
  "lowercasesBasicLatin basicLatinLowerCase \<and>
   \<not> hasTrailingAnnotation
       (normalizeTitle basicLatinLowerCase (ascii ''Every Breath I Take - Remastered'')) \<and>
   normalizeTitle basicLatinLowerCase
       (normalizeTitle basicLatinLowerCase (ascii ''Every Breath I Take - Remastered'')) =
     normalizeTitle basicLatinLowerCase (ascii ''Every Breath I Take - Remastered'') \<and>
   hasTrailingAnnotation (normalizeTitle basicLatinLowerCase (ascii ''Closer - Remix - Edit'')) \<and>
   length (normalizeTitle basicLatinLowerCase
             (normalizeTitle basicLatinLowerCase (ascii ''Closer - Remix - Edit''))) <
     length (normalizeTitle basicLatinLowerCase (ascii ''Closer - Remix - Edit''))"
proof -
  note i = normalizeTitle_idempotent_iff [OF lowercases_self]
  have a: "\<not> hasTrailingAnnotation
       (normalizeTitle basicLatinLowerCase (ascii ''Every Breath I Take - Remastered''))"
    unfolding title_dash_remastered by (rule no_annotation)
  with i [of "ascii ''Every Breath I Take - Remastered''"] have b:
    "normalizeTitle basicLatinLowerCase
       (normalizeTitle basicLatinLowerCase (ascii ''Every Breath I Take - Remastered'')) =
     normalizeTitle basicLatinLowerCase (ascii ''Every Breath I Take - Remastered'')"
    by blast
  have c: "hasTrailingAnnotation (normalizeTitle basicLatinLowerCase (ascii ''Closer - Remix - Edit''))"
    unfolding title_remix_edit by (rule closer_remix_annotation)
  with i [of "ascii ''Closer - Remix - Edit''"] have d:
    "length (normalizeTitle basicLatinLowerCase
             (normalizeTitle basicLatinLowerCase (ascii ''Closer - Remix - Edit''))) <
     length (normalizeTitle basicLatinLowerCase (ascii ''Closer - Remix - Edit''))"
    by blast
  from lowercases_self a b c d show ?thesis by blast
qed

text \<open>
  C4 as stated fails: \<open>Closer - Remix - Edit\<close> normalizes to \<open>closer remix\<close> (the pattern
  for \<open>remix\<close> is tried before the one for \<open>edit\<close>), which normalizes to \<open>closer\<close>.
\<close>

theorem normalizeTitle_not_idempotent:
  "normalizeTitle basicLatinLowerCase (ascii ''Closer - Remix - Edit'') = ascii ''closer remix'' \<and>
   normalizeTitle basicLatinLowerCase
     (normalizeTitle basicLatinLowerCase (ascii ''Closer - Remix - Edit'')) = ascii ''closer'' \<and>
   normalizeTitle basicLatinLowerCase
     (normalizeTitle basicLatinLowerCase (ascii ''Closer - Remix - Edit'')) \<noteq>
     normalizeTitle basicLatinLowerCase (ascii ''Closer - Remix - Edit'')"
  unfolding title_remix_edit title_closer_remix by (simp add: ascii_def)











text \<open>
  The bounds of a range are converted and tested before its mapping is converted: a range
  with a non-numeric bound is dropped whatever its mapping is.
\<close>

lemma normalizeRange_bound_first:
  "normalizeRange 10 \<lparr>raw_start = str ''x'', raw_end = str ''2'', raw_mapping = Inl TypeError\<rparr> =
     Inr None"
  by (simp add: normalizeRange_def parseField_def parseInt_def trim_def str_def ascii_def
      digitValue_def isSpace_def isDigit_def isLower_def isUpper_def)

























lemma dropWhile_all: "(\<forall>c \<in> set xs. P c) \<Longrightarrow> dropWhile P xs = []"
  by simp














lemma replaceSpaceRuns_spaces:
  "\<forall>c \<in> set ws. isSpace c \<Longrightarrow> \<forall>c \<in> set (replaceSpaceRuns r ws). isSpace c"
  by (induction ws arbitrary: r) (auto simp: isSpace_def)

lemma replaceSpaceRuns_append_spaces:
  assumes "\<forall>c \<in> set ws. isSpace c"
  shows "\<exists>e. replaceSpaceRuns r (f @ ws) = replaceSpaceRuns r f @ e \<and> (\<forall>c \<in> set e. isSpace c)"
proof (induction f arbitrary: r)
  case Nil
  show ?case using replaceSpaceRuns_spaces [OF assms, of r] by simp
next
  case (Cons c cs)
  from Cons [of True] obtain e1 where
    1: "replaceSpaceRuns True (cs @ ws) = replaceSpaceRuns True cs @ e1" "\<forall>c \<in> set e1. isSpace c"
    by blast
  from Cons [of False] obtain e2 where
    2: "replaceSpaceRuns False (cs @ ws) = replaceSpaceRuns False cs @ e2" "\<forall>c \<in> set e2. isSpace c"
    by blast
  show ?case
  proof (cases "isSpace c")
    case True
    with 1 show ?thesis by (cases r) auto
  next
    case False
    with 2 show ?thesis by auto
  qed
qed

lemma trim_append_spaces:
  assumes "\<forall>c \<in> set e. isSpace c"
  shows "trim (b @ e) = trim b"
proof (cases "\<forall>c \<in> set b. isSpace c")
  case True
  with assms have 1: "dropWhile isSpace (b @ e) = []" and 2: "dropWhile isSpace b = []" by auto
  show ?thesis unfolding trim_def 1 2 ..
next
  case False
  then have "dropWhile isSpace (b @ e) = dropWhile isSpace b @ e" by auto
  moreover have "dropWhile isSpace (rev e @ rev (dropWhile isSpace b)) =
                 dropWhile isSpace (rev (dropWhile isSpace b))"
    by (rule dropWhile_append2) (use assms in simp)
  ultimately show ?thesis unfolding trim_def by simp
qed

lemma titleTail_append_spaces:
  assumes "\<forall>c \<in> set ws. isSpace c"
  shows "titleTail (u @ ws) = titleTail u"
proof -
  let ?keep = "\<lambda>c. isLower c \<or> isDigit c \<or> isSpace c"
  from assms have "filter ?keep (u @ ws) = filter ?keep u @ ws" by simp
  moreover obtain e where
    "replaceSpaceRuns False (filter ?keep u @ ws) = replaceSpaceRuns False (filter ?keep u) @ e"
    "\<forall>c \<in> set e. isSpace c"
    using replaceSpaceRuns_append_spaces [OF assms] by blast
  ultimately show ?thesis
    unfolding titleTail_def using trim_append_spaces by simp
qed




lemma titleTail_spaces: "\<forall>c \<in> set ws. isSpace c \<Longrightarrow> titleTail ws = []"
  using titleTail_append_spaces [of ws "[]"] by (simp add: titleTail_Nil)




























































end
